theory Spec2Isabelle
  imports Complex_Main "HOL-Library.Word"
begin

section \<open>TinyThread++ (include/tinythread.h): data model\<close>

text \<open>
  The header selects one of two native backends at build time (\<^verbatim>\<open>_TTHREAD_WIN32_\<close> or
  \<^verbatim>\<open>_TTHREAD_POSIX_\<close>) and one of three implementations of the atomic operations
  (\<^verbatim>\<open>_TTHREAD_HAS_ATOMIC_BUILTINS_\<close>, \<^verbatim>\<open>_TTHREAD_HAS_ASM_ATOMICS_\<close>, or neither, in which
  case every atomic operation is guarded by a mutex).  The embedding keeps every
  \<^verbatim>\<open>#if\<close> branch: the build configuration is a value, and each method is defined by cases
  on it.

  Every operation is executed by some thread; the calling thread is an explicit argument.
  A call that cannot return in the state it is made in (it blocks on a lock nobody will
  release in a run of the caller alone, or it spins for ever) yields
  \<open>Inl Never_returns\<close>; a native primitive or a language construct used outside its defined
  range yields \<open>Inl Undefined_behaviour\<close>; a floating-point operation whose result the
  model does not determine yields \<open>Inl Not_modelled\<close>.
\<close>

type_synonym thread_id = nat

datatype fault = Never_returns | Undefined_behaviour | Not_modelled

definition bind_fault :: "fault + 'a \<Rightarrow> ('a \<Rightarrow> fault + 'b) \<Rightarrow> fault + 'b" where
  "bind_fault r f = (case r of Inl e \<Rightarrow> Inl e | Inr x \<Rightarrow> f x)"

datatype platform = TTHREAD_WIN32 | TTHREAD_POSIX

datatype asm_dialect = GNUC_x86 | MSC_VER_x86 | GNUC_ppc

datatype atomics = HAS_ATOMIC_BUILTINS | HAS_ASM_ATOMICS asm_dialect | NO_ATOMICS

text \<open>\<^verbatim>\<open>enum memory_order\<close> (lines 496-531).\<close>

datatype memory_order =
    memory_order_relaxed
  | memory_order_consume
  | memory_order_acquire
  | memory_order_release
  | memory_order_acq_rel
  | memory_order_seq_cst

subsection \<open>Native primitives\<close>

text \<open>
  The operating system's lock objects are not part of the repository.  They are modelled
  from their platform documentation.

  A Win32 \<^verbatim>\<open>CRITICAL_SECTION\<close> is owned by at most one thread and counts the owner's nested
  entries: the owner may enter again, any other thread waits.  Leaving without owning it
  is an error of the caller.
\<close>

record critical_section =
  OwningThread :: "thread_id option"
  RecursionCount :: nat

definition InitializeCriticalSection :: critical_section where
  "InitializeCriticalSection = \<lparr>OwningThread = None, RecursionCount = 0\<rparr>"

definition TryEnterCriticalSection ::
  "thread_id \<Rightarrow> critical_section \<Rightarrow> bool \<times> critical_section" where
  "TryEnterCriticalSection t cs =
     (case OwningThread cs of
        None \<Rightarrow> (True, cs\<lparr>OwningThread := Some t, RecursionCount := 1\<rparr>)
      | Some u \<Rightarrow>
          if u = t then (True, cs\<lparr>RecursionCount := RecursionCount cs + 1\<rparr>)
          else (False, cs))"

definition EnterCriticalSection ::
  "thread_id \<Rightarrow> critical_section \<Rightarrow> fault + critical_section" where
  "EnterCriticalSection t cs =
     (case TryEnterCriticalSection t cs of
        (True, cs') \<Rightarrow> Inr cs'
      | (False, _) \<Rightarrow> Inl Never_returns)"

definition LeaveCriticalSection ::
  "thread_id \<Rightarrow> critical_section \<Rightarrow> fault + critical_section" where
  "LeaveCriticalSection t cs =
     (if OwningThread cs = Some t \<and> 0 < RecursionCount cs then
        (if RecursionCount cs = 1
         then Inr (cs\<lparr>OwningThread := None, RecursionCount := 0\<rparr>)
         else Inr (cs\<lparr>RecursionCount := RecursionCount cs - 1\<rparr>))
      else Inl Undefined_behaviour)"

text \<open>
  A \<^verbatim>\<open>pthread_mutex_t\<close> initialised with \<^verbatim>\<open>pthread_mutex_init(&mHandle, NULL)\<close> (line 184)
  has the platform's default type.  It is modelled as the plain mutex
  (\<^verbatim>\<open>PTHREAD_MUTEX_NORMAL\<close>, neither recursive nor error-checking):
  \<^verbatim>\<open>pthread_mutex_lock\<close> waits while the mutex is locked, whoever locked it;
  \<^verbatim>\<open>pthread_mutex_trylock\<close> returns \<^verbatim>\<open>EBUSY\<close> (16) instead; unlocking a mutex the caller
  has not locked is undefined.  (For the default type POSIX leaves a second
  \<^verbatim>\<open>pthread_mutex_lock\<close> by the owner undefined; none of the numbered results below rests on that case.)
\<close>

record pthread_mutex_t =
  pm_owner :: "thread_id option"

definition pthread_mutex_init :: pthread_mutex_t where
  "pthread_mutex_init = \<lparr>pm_owner = None\<rparr>"

definition pthread_mutex_trylock ::
  "thread_id \<Rightarrow> pthread_mutex_t \<Rightarrow> int \<times> pthread_mutex_t" where
  "pthread_mutex_trylock t pm =
     (case pm_owner pm of
        None \<Rightarrow> (0, pm\<lparr>pm_owner := Some t\<rparr>)
      | Some u \<Rightarrow> (16, pm))"

definition pthread_mutex_lock ::
  "thread_id \<Rightarrow> pthread_mutex_t \<Rightarrow> fault + pthread_mutex_t" where
  "pthread_mutex_lock t pm =
     (case pm_owner pm of
        None \<Rightarrow> Inr (pm\<lparr>pm_owner := Some t\<rparr>)
      | Some u \<Rightarrow> Inl Never_returns)"

definition pthread_mutex_unlock ::
  "thread_id \<Rightarrow> pthread_mutex_t \<Rightarrow> fault + pthread_mutex_t" where
  "pthread_mutex_unlock t pm =
     (if pm_owner pm = Some t then Inr (pm\<lparr>pm_owner := None\<rparr>)
      else Inl Undefined_behaviour)"

text \<open>
  \<^verbatim>\<open>Sleep(ms)\<close> suspends the caller.  In a run of the caller alone nothing else executes
  meanwhile, so the state it returns to is the state it left.
\<close>

definition Sleep :: "nat \<Rightarrow> 's \<Rightarrow> 's" where
  "Sleep ms s = s"

subsection \<open>\<^verbatim>\<open>class mutex\<close> (lines 173-257)\<close>

text \<open>
  The fields of the class depend on the platform: \<^verbatim>\<open>CRITICAL_SECTION mHandle\<close> and
  \<^verbatim>\<open>bool mAlreadyLocked\<close> on Win32, \<^verbatim>\<open>pthread_mutex_t mHandle\<close> on POSIX.
\<close>

datatype mutex =
    Win32_mutex critical_section bool
  | Posix_mutex pthread_mutex_t

fun mutex_ctor :: "platform \<Rightarrow> mutex" where
  "mutex_ctor TTHREAD_WIN32 = Win32_mutex InitializeCriticalSection False"
| "mutex_ctor TTHREAD_POSIX = Posix_mutex pthread_mutex_init"

text \<open>The loop \<^verbatim>\<open>while(mAlreadyLocked) Sleep(1000);\<close> of line 206.\<close>

partial_function (option) while_mAlreadyLocked ::
  "critical_section \<times> bool \<Rightarrow> (critical_section \<times> bool) option" where
  "while_mAlreadyLocked m =
     (if snd m then while_mAlreadyLocked (Sleep 1000 m) else Some m)"

fun lock :: "thread_id \<Rightarrow> mutex \<Rightarrow> fault + mutex" where
  "lock t (Win32_mutex mHandle mAlreadyLocked) =
     bind_fault (EnterCriticalSection t mHandle) (\<lambda>mHandle'.
       case while_mAlreadyLocked (mHandle', mAlreadyLocked) of
         None \<Rightarrow> Inl Never_returns
       | Some (mHandle'', _) \<Rightarrow> Inr (Win32_mutex mHandle'' True))"
| "lock t (Posix_mutex mHandle) =
     bind_fault (pthread_mutex_lock t mHandle) (\<lambda>mHandle'. Inr (Posix_mutex mHandle'))"

fun try_lock :: "thread_id \<Rightarrow> mutex \<Rightarrow> fault + (bool \<times> mutex)" where
  "try_lock t (Win32_mutex mHandle mAlreadyLocked) =
     (case TryEnterCriticalSection t mHandle of
        (ret, mHandle') \<Rightarrow>
          if ret \<and> mAlreadyLocked then
            bind_fault (LeaveCriticalSection t mHandle') (\<lambda>mHandle''.
              Inr (False, Win32_mutex mHandle'' mAlreadyLocked))
          else Inr (ret, Win32_mutex mHandle' mAlreadyLocked))"
| "try_lock t (Posix_mutex mHandle) =
     (case pthread_mutex_trylock t mHandle of
        (rc, mHandle') \<Rightarrow> Inr (rc = 0, Posix_mutex mHandle'))"

fun unlock :: "thread_id \<Rightarrow> mutex \<Rightarrow> fault + mutex" where
  "unlock t (Win32_mutex mHandle mAlreadyLocked) =
     bind_fault (LeaveCriticalSection t mHandle) (\<lambda>mHandle'.
       Inr (Win32_mutex mHandle' False))"
| "unlock t (Posix_mutex mHandle) =
     bind_fault (pthread_mutex_unlock t mHandle) (\<lambda>mHandle'. Inr (Posix_mutex mHandle'))"

text \<open>
  Three states of a mutex are named.  It is \<open>unlocked\<close> when no thread owns its native
  handle and, on Win32, the auxiliary flag is clear: the state the constructor produces.
  A thread \<open>holds\<close> it when the thread owns the native handle, however it came to own it.
  It is \<open>held_by\<close> a thread when the thread holds it and, on Win32, the auxiliary flag is
  set: the state in which a \<^verbatim>\<open>lock()\<close> that returns leaves it.
\<close>

fun unlocked :: "mutex \<Rightarrow> bool" where
  "unlocked (Win32_mutex mHandle mAlreadyLocked) =
     (OwningThread mHandle = None \<and> \<not> mAlreadyLocked)"
| "unlocked (Posix_mutex mHandle) = (pm_owner mHandle = None)"

fun holds :: "mutex \<Rightarrow> thread_id \<Rightarrow> bool" where
  "holds (Win32_mutex mHandle mAlreadyLocked) t =
     (OwningThread mHandle = Some t \<and> 0 < RecursionCount mHandle)"
| "holds (Posix_mutex mHandle) t = (pm_owner mHandle = Some t)"

fun held_by :: "mutex \<Rightarrow> thread_id \<Rightarrow> bool" where
  "held_by (Win32_mutex mHandle mAlreadyLocked) t =
     (OwningThread mHandle = Some t \<and> 0 < RecursionCount mHandle \<and> mAlreadyLocked)"
| "held_by (Posix_mutex mHandle) t = (pm_owner mHandle = Some t)"

subsection \<open>\<^verbatim>\<open>class lock_guard\<close> (lines 356-379)\<close>

text \<open>
  A guard stores a pointer to a mutex, or the null pointer.  The class is a template over
  the mutex type, so all it does is call \<^verbatim>\<open>lock()\<close> and \<^verbatim>\<open>unlock()\<close> on the object its
  pointer refers to: its member functions are modelled by the guard they leave and the
  member calls they issue, in order, on references of type \<open>'r\<close>.
\<close>

datatype 'r mutex_call = Call_lock 'r | Call_unlock 'r

record 'r lock_guard =
  mMutex :: "'r option"

definition lock_guard_default :: "'r lock_guard \<times> 'r mutex_call list" where
  "lock_guard_default = (\<lparr>mMutex = None\<rparr>, [])"

definition lock_guard_ctor :: "'r \<Rightarrow> 'r lock_guard \<times> 'r mutex_call list" where
  "lock_guard_ctor aMutex = (\<lparr>mMutex = Some aMutex\<rparr>, [Call_lock aMutex])"

definition lock_guard_dtor :: "'r lock_guard \<Rightarrow> 'r mutex_call list" where
  "lock_guard_dtor g = (case mMutex g of None \<Rightarrow> [] | Some p \<Rightarrow> [Call_unlock p])"

text \<open>
  The class declares neither a copy constructor nor an assignment operator, and it is the
  one class of the header that does not invoke \<^verbatim>\<open>_TTHREAD_DISABLE_ASSIGNMENT\<close> (\<^verbatim>\<open>mutex\<close>,
  \<^verbatim>\<open>recursive_mutex\<close>, \<^verbatim>\<open>condition_variable\<close>, \<^verbatim>\<open>atomic_flag\<close>, \<^verbatim>\<open>atomic\<close> and \<^verbatim>\<open>thread\<close> do, lines
  246, 329, 480, 642, 789 and 881).  So the compiler generates both, public: the copy
  constructor \<^verbatim>\<open>lock_guard(const lock_guard&)\<close> and \<^verbatim>\<open>operator=(const lock_guard&)\<close> copy the
  one member, the pointer \<^verbatim>\<open>mMutex\<close>, and call nothing.
\<close>

definition lock_guard_copy_ctor :: "'r lock_guard \<Rightarrow> 'r lock_guard \<times> 'r mutex_call list" where
  "lock_guard_copy_ctor other = (\<lparr>mMutex = mMutex other\<rparr>, [])"

definition lock_guard_operator_assign ::
  "'r lock_guard \<Rightarrow> 'r lock_guard \<Rightarrow> 'r lock_guard \<times> 'r mutex_call list" where
  "lock_guard_operator_assign g other = (g\<lparr>mMutex := mMutex other\<rparr>, [])"

text \<open>
  Inside the atomic classes the only mutex a guard can refer to is the member
  \<^verbatim>\<open>mLock\<close> of the object itself; the issued calls are executed on it.
\<close>

datatype member_ref = This_mLock

fun run_call :: "thread_id \<Rightarrow> member_ref mutex_call \<Rightarrow> mutex \<Rightarrow> fault + mutex" where
  "run_call t (Call_lock This_mLock) m = lock t m"
| "run_call t (Call_unlock This_mLock) m = unlock t m"

fun run_calls :: "thread_id \<Rightarrow> member_ref mutex_call list \<Rightarrow> mutex \<Rightarrow> fault + mutex" where
  "run_calls t [] m = Inr m"
| "run_calls t (c # cs) m = bind_fault (run_call t c m) (run_calls t cs)"

definition guard_enter ::
  "thread_id \<Rightarrow> mutex \<Rightarrow> fault + (member_ref lock_guard \<times> mutex)" where
  "guard_enter t m =
     (case lock_guard_ctor This_mLock of
        (guard, calls) \<Rightarrow> bind_fault (run_calls t calls m) (\<lambda>m'. Inr (guard, m')))"

definition guard_exit :: "thread_id \<Rightarrow> member_ref lock_guard \<Rightarrow> mutex \<Rightarrow> fault + mutex" where
  "guard_exit t guard m = run_calls t (lock_guard_dtor guard) m"

subsection \<open>GCC's \<^verbatim>\<open>__sync\<close> builtins\<close>

text \<open>
  The builtins are not part of the repository either.  They are modelled from GCC's
  documentation, as functions of the addressed cell's contents: each executes as one
  indivisible step and yields the new contents, together with the returned value if it
  returns one.
\<close>

definition sync_lock_test_and_set :: "'a::len word \<Rightarrow> 'a word \<Rightarrow> 'a word \<times> 'a word" where
  "sync_lock_test_and_set cell v = (cell, v)"

definition sync_lock_release :: "'a::len word \<Rightarrow> 'a word" where
  "sync_lock_release cell = 0"

definition sync_add_and_fetch :: "'a::len word \<Rightarrow> 'a word \<Rightarrow> 'a word \<times> 'a word" where
  "sync_add_and_fetch cell v = (cell + v, cell + v)"

definition sync_fetch_and_add :: "'a::len word \<Rightarrow> 'a word \<Rightarrow> 'a word \<times> 'a word" where
  "sync_fetch_and_add cell v = (cell, cell + v)"

definition sync_fetch_and_sub :: "'a::len word \<Rightarrow> 'a word \<Rightarrow> 'a word \<times> 'a word" where
  "sync_fetch_and_sub cell v = (cell, cell - v)"

subsection \<open>\<^verbatim>\<open>class atomic_flag\<close> (lines 546-649)\<close>

text \<open>
  \<^verbatim>\<open>volatile int mFlag\<close> is a 32-bit integer; \<^verbatim>\<open>static_cast<bool>\<close> of an integer is true
  exactly for the nonzero ones.  The member \<^verbatim>\<open>mLock\<close> is compiled in only when neither
  the builtins nor the assembly language variants are available; the other variants
  never touch it.
\<close>

record atomic_flag =
  mLock :: mutex
  mFlag :: "32 word"

definition static_cast_bool :: "32 word \<Rightarrow> bool" where
  "static_cast_bool x = (x \<noteq> 0)"

definition atomic_flag_default :: "platform \<Rightarrow> atomic_flag" where
  "atomic_flag_default p = \<lparr>mLock = mutex_ctor p, mFlag = 0\<rparr>"

definition atomic_flag_ctor :: "platform \<Rightarrow> 32 word \<Rightarrow> atomic_flag" where
  "atomic_flag_ctor p val = \<lparr>mLock = mutex_ctor p, mFlag = val\<rparr>"

text \<open>
  The x86 instruction \<^verbatim>\<open>xchg reg,mem\<close> swaps a register with a memory cell; the result is
  the pair of the new register and the new cell.  In the Visual C++ variant the cell is
  addressed through \<^verbatim>\<open>ptrFlag\<close> and \<^verbatim>\<open>ecx\<close>, which point at \<^verbatim>\<open>mFlag\<close>: they stand for
  the cell they point at.
\<close>

definition xchg :: "32 word \<Rightarrow> 32 word \<Rightarrow> 32 word \<times> 32 word" where
  "xchg reg mem = (mem, reg)"

text \<open>
  The PowerPC sequence of lines 584-596: \<^verbatim>\<open>lwarx\<close> loads the cell and reserves it; a
  nonzero value branches to the end without storing; otherwise \<^verbatim>\<open>stwcx.\<close> stores the new
  flag if the reservation still stands and the sequence starts over if it was lost.  How
  often the reservation is lost is up to the hardware: it is the first argument.
\<close>

fun lwarx_stwcx_loop :: "nat \<Rightarrow> 32 word \<Rightarrow> 32 word \<Rightarrow> 32 word \<times> 32 word" where
  "lwarx_stwcx_loop 0 newFlag cell =
     (let result = cell
      in if result \<noteq> 0 then (result, cell) else (result, newFlag))"
| "lwarx_stwcx_loop (Suc lost) newFlag cell =
     (let result = cell
      in if result \<noteq> 0 then (result, cell) else lwarx_stwcx_loop lost newFlag cell)"

fun test_and_set ::
  "atomics \<Rightarrow> nat \<Rightarrow> thread_id \<Rightarrow> memory_order \<Rightarrow> atomic_flag \<Rightarrow> fault + (bool \<times> atomic_flag)"
  where
  "test_and_set HAS_ATOMIC_BUILTINS lost t order f =
     (case sync_lock_test_and_set (mFlag f) 1 of
        (r, cell) \<Rightarrow> Inr (static_cast_bool r, f\<lparr>mFlag := cell\<rparr>))"
| "test_and_set (HAS_ASM_ATOMICS GNUC_x86) lost t order f =
     (let eax = 1;
          (eax, cell) = xchg eax (mFlag f);
          result = eax
      in Inr (static_cast_bool result, f\<lparr>mFlag := cell\<rparr>))"
| "test_and_set (HAS_ASM_ATOMICS MSC_VER_x86) lost t order f =
     (let ptrFlag = mFlag f;
          eax = 1;
          ecx = ptrFlag;
          (eax, cell) = xchg eax ecx;
          result = eax
      in Inr (static_cast_bool result, f\<lparr>mFlag := cell\<rparr>))"
| "test_and_set (HAS_ASM_ATOMICS GNUC_ppc) lost t order f =
     (let newFlag = 1;
          (result, cell) = lwarx_stwcx_loop lost newFlag (mFlag f)
      in Inr (static_cast_bool result, f\<lparr>mFlag := cell\<rparr>))"
| "test_and_set NO_ATOMICS lost t order f =
     bind_fault (guard_enter t (mLock f)) (\<lambda>(guard, l).
       let f1 = f\<lparr>mLock := l\<rparr>;
           result = mFlag f1;
           f2 = f1\<lparr>mFlag := 1\<rparr>
       in bind_fault (guard_exit t guard (mLock f2)) (\<lambda>l'.
            Inr (static_cast_bool result, f2\<lparr>mLock := l'\<rparr>)))"

fun clear :: "atomics \<Rightarrow> thread_id \<Rightarrow> memory_order \<Rightarrow> atomic_flag \<Rightarrow> fault + atomic_flag" where
  "clear HAS_ATOMIC_BUILTINS t order f = Inr (f\<lparr>mFlag := sync_lock_release (mFlag f)\<rparr>)"
| "clear (HAS_ASM_ATOMICS GNUC_x86) t order f =
     (let eax = 0;
          (eax, cell) = xchg eax (mFlag f)
      in Inr (f\<lparr>mFlag := cell\<rparr>))"
| "clear (HAS_ASM_ATOMICS MSC_VER_x86) t order f =
     (let ptrFlag = mFlag f;
          eax = 0;
          ecx = ptrFlag;
          (eax, cell) = xchg eax ecx
      in Inr (f\<lparr>mFlag := cell\<rparr>))"
| "clear (HAS_ASM_ATOMICS GNUC_ppc) t order f = Inr (f\<lparr>mFlag := 0\<rparr>)"
| "clear NO_ATOMICS t order f =
     bind_fault (guard_enter t (mLock f)) (\<lambda>(guard, l).
       let f1 = f\<lparr>mLock := l\<rparr>;
           f2 = f1\<lparr>mFlag := 0\<rparr>
       in bind_fault (guard_exit t guard (mLock f2)) (\<lambda>l'. Inr (f2\<lparr>mLock := l'\<rparr>)))"

text \<open>
  The contract of the flag in the specification's words, on the flag as a truth value:
  \<^verbatim>\<open>test_and_set\<close> ``atomically sets the flag to true; returns the value held immediately
  before the operation'', \<^verbatim>\<open>clear\<close> ``atomically sets the flag to false''.  The truth
  value an \<open>atomic_flag\<close> object stands for is the one \<^verbatim>\<open>test_and_set\<close> reports.
\<close>

definition spec_test_and_set :: "bool \<Rightarrow> bool \<times> bool" where
  "spec_test_and_set flag = (flag, True)"

definition spec_clear :: "bool \<Rightarrow> bool" where
  "spec_clear flag = False"

definition flag_value :: "atomic_flag \<Rightarrow> bool" where
  "flag_value f = static_cast_bool (mFlag f)"

subsection \<open>\<^verbatim>\<open>struct atomic<T>\<close> (lines 655-796)\<close>

text \<open>
  \<open>T\<close> is one of the integer types of lines 798-808, a machine integer of some width:
  \<open>'a word\<close>, whose \<open>+\<close> and \<open>-\<close> wrap around as the hardware's and the builtins' do
  (for a signed \<open>T\<close> the C++ of the guarded variant leaves the overflowing case undefined;
  the model takes the two's complement result there too).  The member \<^verbatim>\<open>mLock\<close> is
  compiled in when the builtins are absent.
\<close>

record (overloaded) ('a::len) atomic =
  mLock :: mutex
  mValue :: "'a word"

definition atomic_default :: "platform \<Rightarrow> ('a::len) atomic" where
  "atomic_default p = \<lparr>mLock = mutex_ctor p, mValue = 0\<rparr>"

definition atomic_ctor :: "platform \<Rightarrow> 'a::len word \<Rightarrow> 'a atomic" where
  "atomic_ctor p desired = \<lparr>mLock = mutex_ctor p, mValue = desired\<rparr>"

fun is_lock_free :: "atomics \<Rightarrow> bool" where
  "is_lock_free HAS_ATOMIC_BUILTINS = True"
| "is_lock_free _ = False"

definition store ::
  "atomics \<Rightarrow> thread_id \<Rightarrow> 'a::len word \<Rightarrow> memory_order \<Rightarrow> 'a atomic \<Rightarrow> fault + 'a atomic" where
  "store cfg t desired order a =
     (if is_lock_free cfg then
        (case sync_lock_test_and_set (mValue a) desired of
           (_, cell) \<Rightarrow> Inr (a\<lparr>mValue := cell\<rparr>))
      else
        bind_fault (guard_enter t (mLock a)) (\<lambda>(guard, l).
          let a1 = a\<lparr>mLock := l\<rparr>;
              a2 = a1\<lparr>mValue := desired\<rparr>
          in bind_fault (guard_exit t guard (mLock a2)) (\<lambda>l'. Inr (a2\<lparr>mLock := l'\<rparr>))))"

definition load ::
  "atomics \<Rightarrow> thread_id \<Rightarrow> memory_order \<Rightarrow> ('a::len) atomic \<Rightarrow> fault + ('a word \<times> 'a atomic)" where
  "load cfg t order a =
     (if is_lock_free cfg then
        (case sync_add_and_fetch (mValue a) 0 of
           (r, cell) \<Rightarrow> Inr (r, a\<lparr>mValue := cell\<rparr>))
      else
        bind_fault (guard_enter t (mLock a)) (\<lambda>(guard, l).
          let a1 = a\<lparr>mLock := l\<rparr>;
              r = mValue a1
          in bind_fault (guard_exit t guard (mLock a1)) (\<lambda>l'. Inr (r, a1\<lparr>mLock := l'\<rparr>))))"

definition fetch_add ::
  "atomics \<Rightarrow> thread_id \<Rightarrow> 'a::len word \<Rightarrow> memory_order \<Rightarrow> 'a atomic \<Rightarrow>
     fault + ('a word \<times> 'a atomic)" where
  "fetch_add cfg t arg order a =
     (if is_lock_free cfg then
        (case sync_fetch_and_add (mValue a) arg of
           (r, cell) \<Rightarrow> Inr (r, a\<lparr>mValue := cell\<rparr>))
      else
        bind_fault (guard_enter t (mLock a)) (\<lambda>(guard, l).
          let a1 = a\<lparr>mLock := l\<rparr>;
              result = mValue a1;
              a2 = a1\<lparr>mValue := mValue a1 + arg\<rparr>
          in bind_fault (guard_exit t guard (mLock a2)) (\<lambda>l'.
               Inr (result, a2\<lparr>mLock := l'\<rparr>))))"

definition fetch_sub ::
  "atomics \<Rightarrow> thread_id \<Rightarrow> 'a::len word \<Rightarrow> memory_order \<Rightarrow> 'a atomic \<Rightarrow>
     fault + ('a word \<times> 'a atomic)" where
  "fetch_sub cfg t arg order a =
     (if is_lock_free cfg then
        (case sync_fetch_and_sub (mValue a) arg of
           (r, cell) \<Rightarrow> Inr (r, a\<lparr>mValue := cell\<rparr>))
      else
        bind_fault (guard_enter t (mLock a)) (\<lambda>(guard, l).
          let a1 = a\<lparr>mLock := l\<rparr>;
              result = mValue a1;
              a2 = a1\<lparr>mValue := mValue a1 - arg\<rparr>
          in bind_fault (guard_exit t guard (mLock a2)) (\<lambda>l'.
               Inr (result, a2\<lparr>mLock := l'\<rparr>))))"

text \<open>
  The four operators (lines 760-787) call \<^verbatim>\<open>fetch_add(1)\<close> and \<^verbatim>\<open>fetch_sub(1)\<close> with the
  default order \<^verbatim>\<open>memory_order_seq_cst\<close>.
\<close>

definition pre_increment ::
  "atomics \<Rightarrow> thread_id \<Rightarrow> ('a::len) atomic \<Rightarrow> fault + ('a word \<times> 'a atomic)" where
  "pre_increment cfg t a =
     bind_fault (fetch_add cfg t 1 memory_order_seq_cst a) (\<lambda>(r, a'). Inr (r + 1, a'))"

definition post_increment ::
  "atomics \<Rightarrow> thread_id \<Rightarrow> ('a::len) atomic \<Rightarrow> fault + ('a word \<times> 'a atomic)" where
  "post_increment cfg t a = fetch_add cfg t 1 memory_order_seq_cst a"

definition pre_decrement ::
  "atomics \<Rightarrow> thread_id \<Rightarrow> ('a::len) atomic \<Rightarrow> fault + ('a word \<times> 'a atomic)" where
  "pre_decrement cfg t a =
     bind_fault (fetch_sub cfg t 1 memory_order_seq_cst a) (\<lambda>(r, a'). Inr (r - 1, a'))"

definition post_decrement ::
  "atomics \<Rightarrow> thread_id \<Rightarrow> ('a::len) atomic \<Rightarrow> fault + ('a word \<times> 'a atomic)" where
  "post_decrement cfg t a = fetch_sub cfg t 1 memory_order_seq_cst a"

subsection \<open>\<^verbatim>\<open>ratio\<close>, \<^verbatim>\<open>chrono::duration\<close> and \<^verbatim>\<open>this_thread::sleep_for\<close> (lines 959-1035)\<close>

text \<open>
  \<^verbatim>\<open>sleep_for\<close> computes in \<^verbatim>\<open>double\<close>.  A rational number whose lowest terms are
  \<open>p / q\<close> with \<open>\<bar>p\<bar>\<close> below \<open>2 ^ 53\<close> and \<open>q\<close> a power of two not above \<open>2 ^ 1074\<close> is a
  value of IEEE binary64 (significand \<open>p\<close>).  When the exact result of a conversion, a
  product, a quotient or a sum is such a number, that number is the result: under every
  rounding mode, with wider intermediate precision, and with the multiplication and the
  addition fused.  Otherwise the result depends on rounding (or is a larger binary64
  value, which the test leaves out), and the model does not determine it.  A \<^verbatim>\<open>double\<close>
  is therefore a rational number, and an operation yields its exact result or
  \<open>Not_modelled\<close>.
\<close>

type_synonym double = rat

definition binary64 :: "rat \<Rightarrow> bool" where
  "binary64 x = (case quotient_of x of (p, q) \<Rightarrow> \<bar>p\<bar> < 2 ^ 53 \<and> q dvd 2 ^ 1074)"

definition double_result :: "rat \<Rightarrow> fault + double" where
  "double_result x = (if binary64 x then Inr x else Inl Not_modelled)"

text \<open>\<^verbatim>\<open>double(i)\<close> for an \<^verbatim>\<open>__intmax_t\<close> (\<^verbatim>\<open>long long\<close>, 64 bits, signed).\<close>

definition double_of_intmax :: "64 word \<Rightarrow> fault + double" where
  "double_of_intmax i = double_result (of_int (sint i))"

definition double_divide :: "double \<Rightarrow> double \<Rightarrow> fault + double" where
  "double_divide x y = (if y = 0 then Inl Not_modelled else double_result (x / y))"

definition double_times :: "double \<Rightarrow> double \<Rightarrow> fault + double" where
  "double_times x y = double_result (x * y)"

definition double_plus :: "double \<Rightarrow> double \<Rightarrow> fault + double" where
  "double_plus x y = double_result (x + y)"

text \<open>
  \<^verbatim>\<open>int(x)\<close> discards the fractional part of \<open>x\<close>; the behaviour is undefined when the
  truncated value is not a value of \<^verbatim>\<open>int\<close> (32 bits).
\<close>

definition int_of_double :: "double \<Rightarrow> fault + 32 word" where
  "int_of_double x =
     (let truncated = (if 0 \<le> x then \<lfloor>x\<rfloor> else \<lceil>x\<rceil>)
      in if - (2 ^ 31) \<le> truncated \<and> truncated < 2 ^ 31
         then Inr (word_of_int truncated)
         else Inl Undefined_behaviour)"

text \<open>
  \<^verbatim>\<open>template <__intmax_t N, __intmax_t D = 1> class ratio\<close>: the two template arguments
  are the fields of a value.  \<^verbatim>\<open>chrono::duration<_Rep, _Period>\<close> stores the count
  \<^verbatim>\<open>rep_\<close> (here \<open>rep\<close>); in the six standard duration types \<^verbatim>\<open>_Rep\<close> is \<^verbatim>\<open>__intmax_t\<close>.
\<close>

record ratio =
  ratio_N :: "64 word"
  ratio_D :: "64 word"

definition as_double :: "ratio \<Rightarrow> fault + double" where
  "as_double r =
     bind_fault (double_of_intmax (ratio_N r)) (\<lambda>n.
     bind_fault (double_of_intmax (ratio_D r)) (\<lambda>d.
     double_divide n d))"

record duration =
  rep :: "64 word"
  period :: ratio

definition count :: "duration \<Rightarrow> 64 word" where
  "count aTime = rep aTime"

definition nanoseconds :: "64 word \<Rightarrow> duration" where
  "nanoseconds r = \<lparr>rep = r, period = \<lparr>ratio_N = 1, ratio_D = 1000000000\<rparr>\<rparr>"

definition microseconds :: "64 word \<Rightarrow> duration" where
  "microseconds r = \<lparr>rep = r, period = \<lparr>ratio_N = 1, ratio_D = 1000000\<rparr>\<rparr>"

definition milliseconds :: "64 word \<Rightarrow> duration" where
  "milliseconds r = \<lparr>rep = r, period = \<lparr>ratio_N = 1, ratio_D = 1000\<rparr>\<rparr>"

definition seconds :: "64 word \<Rightarrow> duration" where
  "seconds r = \<lparr>rep = r, period = \<lparr>ratio_N = 1, ratio_D = 1\<rparr>\<rparr>"

definition minutes :: "64 word \<Rightarrow> duration" where
  "minutes r = \<lparr>rep = r, period = \<lparr>ratio_N = 60, ratio_D = 1\<rparr>\<rparr>"

definition hours :: "64 word \<Rightarrow> duration" where
  "hours r = \<lparr>rep = r, period = \<lparr>ratio_N = 3600, ratio_D = 1\<rparr>\<rparr>"

text \<open>
  \<^verbatim>\<open>sleep_for\<close> passes an \<^verbatim>\<open>int\<close> to the native function: \<^verbatim>\<open>Sleep\<close> (milliseconds) on
  Win32, \<^verbatim>\<open>usleep\<close> (microseconds) on POSIX.  Its result here is that argument.
\<close>

fun sleep_for :: "platform \<Rightarrow> duration \<Rightarrow> fault + 32 word" where
  "sleep_for TTHREAD_WIN32 aTime =
     bind_fault (double_of_intmax (count aTime)) (\<lambda>c.
     bind_fault (as_double (period aTime)) (\<lambda>r.
     bind_fault (double_times 1000 r) (\<lambda>f.
     bind_fault (double_times c f) (\<lambda>x.
     bind_fault (double_plus x (1 / 2)) (\<lambda>y.
     int_of_double y)))))"
| "sleep_for TTHREAD_POSIX aTime =
     bind_fault (double_of_intmax (count aTime)) (\<lambda>c.
     bind_fault (as_double (period aTime)) (\<lambda>r.
     bind_fault (double_times 1000000 r) (\<lambda>f.
     bind_fault (double_times c f) (\<lambda>x.
     bind_fault (double_plus x (1 / 2)) (\<lambda>y.
     int_of_double y)))))"

text \<open>
  The interval in native units that the specification asks for: ``\<open>c * 1000 * N/D\<close>
  milliseconds'' on Win32, ``\<open>c * 1000000 * N/D\<close> microseconds'' on POSIX, as a rational
  number.
\<close>

fun units_per_second :: "platform \<Rightarrow> rat" where
  "units_per_second TTHREAD_WIN32 = 1000"
| "units_per_second TTHREAD_POSIX = 1000000"

definition spec_interval :: "platform \<Rightarrow> duration \<Rightarrow> rat" where
  "spec_interval p aTime =
     of_int (sint (count aTime)) * units_per_second p
       * of_int (sint (ratio_N (period aTime))) / of_int (sint (ratio_D (period aTime)))"

subsection \<open>Step-by-step execution\<close>

text \<open>
  Where a property is about several threads, or about a call that may not return, a method
  is executed one step at a time.  A step is one call of a native primitive, one access
  to a shared variable, or one indivisible builtin; the shared object is read at the
  moment the step is taken.  A step function yields \<open>None\<close> when the thread cannot move in
  the present state: it waits inside a native call, or its call has returned.  (The
  methods access \<^verbatim>\<open>mAlreadyLocked\<close> and, on the guarded path, \<^verbatim>\<open>mValue\<close> only between
  the native acquisition and the native release, so whole accesses are the right grain.)

  The control points of \<^verbatim>\<open>mutex::lock()\<close>: before the native acquisition, at the test of
  \<^verbatim>\<open>while(mAlreadyLocked)\<close>, before \<^verbatim>\<open>mAlreadyLocked = true\<close>, and returned.  Those of
  \<^verbatim>\<open>mutex::unlock()\<close>: at its first statement, before \<^verbatim>\<open>LeaveCriticalSection\<close>, and returned.
  A thread woken from \<^verbatim>\<open>Sleep\<close> tests the flag again.
\<close>

datatype lock_pc = Lock_enter | Lock_while | Lock_set | Lock_returned

datatype unlock_pc = Unlock_enter | Unlock_leave | Unlock_returned

fun lock_step :: "thread_id \<Rightarrow> lock_pc \<Rightarrow> mutex \<Rightarrow> (lock_pc \<times> mutex) option" where
  "lock_step t Lock_enter (Win32_mutex mHandle mAlreadyLocked) =
     (case EnterCriticalSection t mHandle of
        Inl _ \<Rightarrow> None
      | Inr mHandle' \<Rightarrow> Some (Lock_while, Win32_mutex mHandle' mAlreadyLocked))"
| "lock_step t Lock_while (Win32_mutex mHandle mAlreadyLocked) =
     (if mAlreadyLocked
      then Some (Lock_while, Sleep 1000 (Win32_mutex mHandle mAlreadyLocked))
      else Some (Lock_set, Win32_mutex mHandle mAlreadyLocked))"
| "lock_step t Lock_set (Win32_mutex mHandle mAlreadyLocked) =
     Some (Lock_returned, Win32_mutex mHandle True)"
| "lock_step t Lock_enter (Posix_mutex mHandle) =
     (case pthread_mutex_lock t mHandle of
        Inl _ \<Rightarrow> None
      | Inr mHandle' \<Rightarrow> Some (Lock_returned, Posix_mutex mHandle'))"
| "lock_step t _ _ = None"

fun unlock_step :: "thread_id \<Rightarrow> unlock_pc \<Rightarrow> mutex \<Rightarrow> (unlock_pc \<times> mutex) option" where
  "unlock_step t Unlock_enter (Win32_mutex mHandle mAlreadyLocked) =
     Some (Unlock_leave, Win32_mutex mHandle False)"
| "unlock_step t Unlock_leave (Win32_mutex mHandle mAlreadyLocked) =
     (case LeaveCriticalSection t mHandle of
        Inl _ \<Rightarrow> None
      | Inr mHandle' \<Rightarrow> Some (Unlock_returned, Win32_mutex mHandle' mAlreadyLocked))"
| "unlock_step t Unlock_enter (Posix_mutex mHandle) =
     (case pthread_mutex_unlock t mHandle of
        Inl _ \<Rightarrow> None
      | Inr mHandle' \<Rightarrow> Some (Unlock_returned, Posix_mutex mHandle'))"
| "unlock_step t _ _ = None"

text \<open>A thread executing \<^verbatim>\<open>mutex::lock()\<close> on its own, for a number of steps.\<close>

fun lock_run :: "nat \<Rightarrow> thread_id \<Rightarrow> lock_pc \<times> mutex \<Rightarrow> lock_pc \<times> mutex" where
  "lock_run 0 t s = s"
| "lock_run (Suc n) t (pc, m) =
     (case lock_step t pc m of
        None \<Rightarrow> (pc, m)
      | Some s' \<Rightarrow> lock_run n t s')"

text \<open>
  The control points of \<^verbatim>\<open>atomic<T>::fetch_add(arg)\<close> (lines 709-719).  With the builtin
  the call is one step.  Otherwise the guard's constructor runs \<^verbatim>\<open>mLock.lock()\<close>; then
  \<^verbatim>\<open>T result = mValue\<close> reads the cell; \<^verbatim>\<open>mValue += arg\<close> reads it again and writes the sum (the
  cell is \<^verbatim>\<open>volatile\<close>: two accesses); the guard's destructor runs \<^verbatim>\<open>mLock.unlock()\<close>; and
  the call returns \<^verbatim>\<open>result\<close>.  The values a thread has read are part of its control point.
\<close>

datatype 'v fetch_add_pc =
    Called
  | Guard_ctor lock_pc
  | Add_read 'v
  | Add_write 'v 'v
  | Guard_dtor unlock_pc 'v
  | Returned 'v

fun fetch_add_step ::
  "atomics \<Rightarrow> 'a::len word \<Rightarrow> thread_id \<Rightarrow> 'a word fetch_add_pc \<Rightarrow> 'a atomic \<Rightarrow>
     ('a word fetch_add_pc \<times> 'a atomic) option" where
  "fetch_add_step cfg arg t Called a =
     (if is_lock_free cfg then
        (case sync_fetch_and_add (mValue a) arg of
           (r, cell) \<Rightarrow> Some (Returned r, a\<lparr>mValue := cell\<rparr>))
      else Some (Guard_ctor Lock_enter, a))"
| "fetch_add_step cfg arg t (Guard_ctor Lock_returned) a = Some (Add_read (mValue a), a)"
| "fetch_add_step cfg arg t (Guard_ctor pc) a =
     (case lock_step t pc (mLock a) of
        None \<Rightarrow> None
      | Some (pc', l) \<Rightarrow> Some (Guard_ctor pc', a\<lparr>mLock := l\<rparr>))"
| "fetch_add_step cfg arg t (Add_read result) a = Some (Add_write result (mValue a), a)"
| "fetch_add_step cfg arg t (Add_write result v) a =
     Some (Guard_dtor Unlock_enter result, a\<lparr>mValue := v + arg\<rparr>)"
| "fetch_add_step cfg arg t (Guard_dtor Unlock_returned result) a = Some (Returned result, a)"
| "fetch_add_step cfg arg t (Guard_dtor pc result) a =
     (case unlock_step t pc (mLock a) of
        None \<Rightarrow> None
      | Some (pc', l) \<Rightarrow> Some (Guard_dtor pc' result, a\<lparr>mLock := l\<rparr>))"
| "fetch_add_step cfg arg t (Returned result) a = None"

text \<open>
  A system is the shared cell and the control points of the threads, thread \<open>t\<close> being
  the \<open>t\<close>-th of the list, all of them inside one call of \<^verbatim>\<open>fetch_add(arg)\<close>.  A schedule
  is the list of the threads in the order in which they are given a step; a thread that
  cannot move when it is scheduled leaves the system as it is.
\<close>

definition system_step ::
  "atomics \<Rightarrow> 'a::len word \<Rightarrow> thread_id \<Rightarrow> 'a atomic \<times> 'a word fetch_add_pc list \<Rightarrow>
     'a atomic \<times> 'a word fetch_add_pc list" where
  "system_step cfg arg t s =
     (case s of (a, threads) \<Rightarrow>
        if t < length threads then
          (case fetch_add_step cfg arg t (threads ! t) a of
             None \<Rightarrow> (a, threads)
           | Some (pc', a') \<Rightarrow> (a', threads[t := pc']))
        else (a, threads))"

fun run ::
  "atomics \<Rightarrow> 'a::len word \<Rightarrow> thread_id list \<Rightarrow> 'a atomic \<times> 'a word fetch_add_pc list \<Rightarrow>
     'a atomic \<times> 'a word fetch_add_pc list" where
  "run cfg arg [] s = s"
| "run cfg arg (t # schedule) s = run cfg arg schedule (system_step cfg arg t s)"

text \<open>
  Properties of control points used to state what holds during a run: the call has
  returned; the thread is between the native acquisition and the native release of
  \<^verbatim>\<open>mLock\<close>; the thread has written its sum to the cell.
\<close>

fun returned :: "'v fetch_add_pc \<Rightarrow> bool" where
  "returned (Returned result) = True"
| "returned _ = False"

fun in_cs :: "'v fetch_add_pc \<Rightarrow> bool" where
  "in_cs Called = False"
| "in_cs (Guard_ctor pc) = (pc \<noteq> Lock_enter)"
| "in_cs (Add_read result) = True"
| "in_cs (Add_write result v) = True"
| "in_cs (Guard_dtor pc result) = (pc \<noteq> Unlock_returned)"
| "in_cs (Returned result) = False"

fun written :: "'v fetch_add_pc \<Rightarrow> bool" where
  "written (Guard_dtor pc result) = True"
| "written (Returned result) = True"
| "written _ = False"

fun native_owner :: "mutex \<Rightarrow> thread_id option" where
  "native_owner (Win32_mutex mHandle mAlreadyLocked) = OwningThread mHandle"
| "native_owner (Posix_mutex mHandle) = pm_owner mHandle"

text \<open>
  The invariant of a run in which every thread calls \<^verbatim>\<open>fetch_add(arg)\<close> once, started with
  the value \<open>v0\<close> in the cell.  The cell holds \<open>v0\<close> plus what the threads have added so far.
  On the guarded path, moreover: the native lock is entered at most once, and on Win32 the
  flag is clear while nobody owns it; its owner is one of the threads; a thread is between
  acquisition and release exactly when it owns the native lock; the flag \<^verbatim>\<open>mAlreadyLocked\<close>
  is set exactly while the owner is between the end of \<^verbatim>\<open>lock()\<close> and the first statement
  of \<^verbatim>\<open>unlock()\<close> (on POSIX, where there is no flag, no thread is at a control point that
  only the Win32 methods have); and a thread about to write has read the value the cell
  still holds.
\<close>

fun entered_once :: "mutex \<Rightarrow> bool" where
  "entered_once (Win32_mutex mHandle mAlreadyLocked) =
     ((OwningThread mHandle = None \<or> RecursionCount mHandle = 1)
      \<and> (OwningThread mHandle = None \<longrightarrow> \<not> mAlreadyLocked))"
| "entered_once (Posix_mutex mHandle) = True"

fun expects_flag :: "'v fetch_add_pc \<Rightarrow> bool" where
  "expects_flag (Guard_ctor pc) = (pc = Lock_returned)"
| "expects_flag (Add_read result) = True"
| "expects_flag (Add_write result v) = True"
| "expects_flag (Guard_dtor pc result) = (pc = Unlock_enter)"
| "expects_flag _ = False"

fun agrees :: "mutex \<Rightarrow> 'v fetch_add_pc \<Rightarrow> bool" where
  "agrees (Win32_mutex mHandle mAlreadyLocked) pc =
     (in_cs pc \<longrightarrow> mAlreadyLocked = expects_flag pc)"
| "agrees (Posix_mutex mHandle) pc =
     (pc \<noteq> Guard_ctor Lock_while \<and> pc \<noteq> Guard_ctor Lock_set
      \<and> (\<forall>result. pc \<noteq> Guard_dtor Unlock_leave result))"

definition thread_ok :: "mutex \<Rightarrow> 'v \<Rightarrow> thread_id \<Rightarrow> 'v fetch_add_pc \<Rightarrow> bool" where
  "thread_ok m cell t pc =
     (in_cs pc = (native_owner m = Some t) \<and> agrees m pc
      \<and> (\<forall>result v. pc = Add_write result v \<longrightarrow> v = cell))"

definition added :: "'a::len word \<Rightarrow> 'a word fetch_add_pc \<Rightarrow> 'a word" where
  "added arg pc = (if written pc then arg else 0)"

definition no_update_lost ::
  "atomics \<Rightarrow> 'a::len word \<Rightarrow> 'a word \<Rightarrow> 'a atomic \<times> 'a word fetch_add_pc list \<Rightarrow> bool" where
  "no_update_lost cfg arg v0 s =
     (case s of (a, threads) \<Rightarrow>
        mValue a = v0 + sum_list (map (added arg) threads)
        \<and> (if is_lock_free cfg then (\<forall>pc \<in> set threads. pc = Called \<or> returned pc)
           else entered_once (mLock a)
              \<and> (\<forall>k. native_owner (mLock a) = Some k \<longrightarrow> k < length threads)
              \<and> (\<forall>i < length threads. thread_ok (mLock a) (mValue a) i (threads ! i))))"

text \<open>
  The steps a call still has to take, at most, and their sum over the threads: every
  step that changes the system takes one step or more off it.
\<close>

fun steps_left :: "'v fetch_add_pc \<Rightarrow> nat" where
  "steps_left Called = 10"
| "steps_left (Guard_ctor Lock_enter) = 9"
| "steps_left (Guard_ctor Lock_while) = 8"
| "steps_left (Guard_ctor Lock_set) = 7"
| "steps_left (Guard_ctor Lock_returned) = 6"
| "steps_left (Add_read result) = 5"
| "steps_left (Add_write result v) = 4"
| "steps_left (Guard_dtor Unlock_enter result) = 3"
| "steps_left (Guard_dtor Unlock_leave result) = 2"
| "steps_left (Guard_dtor Unlock_returned result) = 1"
| "steps_left (Returned result) = 0"

definition work :: "'v fetch_add_pc list \<Rightarrow> nat" where
  "work threads = sum_list (map steps_left threads)"

section \<open>The mutex in a run of one thread\<close>

lemma while_mAlreadyLocked_clear [simp]:
  "while_mAlreadyLocked (h, False) = Some (h, False)"
  by (subst while_mAlreadyLocked.simps) simp

lemma while_mAlreadyLocked_Some:
  "while_mAlreadyLocked m = Some r \<Longrightarrow> \<not> snd m"
  by (rule while_mAlreadyLocked.raw_induct [where P = "\<lambda>m r. \<not> snd m" and m = m and y = r])
     (simp_all add: Sleep_def split: if_splits)

lemma while_mAlreadyLocked_set [simp]:
  "while_mAlreadyLocked (h, True) = None"
  using while_mAlreadyLocked_Some [of "(h, True)"] by (cases "while_mAlreadyLocked (h, True)") auto

lemma mutex_ctor_unlocked: "unlocked (mutex_ctor p)"
  by (cases p) (simp_all add: InitializeCriticalSection_def pthread_mutex_init_def)

lemma lock_unlocked:
  "unlocked m \<Longrightarrow> \<exists>m'. lock t m = Inr m' \<and> held_by m' t"
  by (cases m)
     (auto simp: bind_fault_def EnterCriticalSection_def TryEnterCriticalSection_def
        pthread_mutex_lock_def)

lemma try_lock_unlocked:
  "unlocked m \<Longrightarrow> \<exists>m'. try_lock t m = Inr (True, m') \<and> holds m' t"
  by (cases m)
     (auto simp: TryEnterCriticalSection_def pthread_mutex_trylock_def)

lemma held_by_holds: "held_by m t \<Longrightarrow> holds m t"
  by (cases m) simp_all

lemma unlock_holds:
  "holds m t \<Longrightarrow> \<exists>m'. unlock t m = Inr m'"
  by (cases m)
     (auto simp: bind_fault_def LeaveCriticalSection_def pthread_mutex_unlock_def)

lemma lock_held_by:
  "held_by m t \<Longrightarrow> lock t m = Inl Never_returns"
  by (cases m)
     (auto simp: bind_fault_def EnterCriticalSection_def TryEnterCriticalSection_def
        pthread_mutex_lock_def)

lemma try_lock_returns: "\<exists>r m'. try_lock t m = Inr (r, m')"
  by (cases m)
     (auto simp: TryEnterCriticalSection_def LeaveCriticalSection_def bind_fault_def
        pthread_mutex_trylock_def split: option.splits prod.splits)

lemma guard_cycle:
  assumes "unlocked m"
  shows "\<exists>g m' m''. guard_enter t m = Inr (g, m') \<and> held_by m' t
           \<and> guard_exit t g m' = Inr m'' \<and> unlocked m''"
  using assms
  by (cases m)
     (auto simp: guard_enter_def guard_exit_def lock_guard_ctor_def lock_guard_dtor_def
        bind_fault_def EnterCriticalSection_def TryEnterCriticalSection_def
        LeaveCriticalSection_def pthread_mutex_lock_def pthread_mutex_unlock_def)

text \<open>
  C6.  While a thread \<open>a\<close> holds the mutex, \<^verbatim>\<open>try_lock()\<close> called by any other thread
  returns false and leaves the mutex as it was; so does \<^verbatim>\<open>try_lock()\<close> called by \<open>a\<close>
  itself once \<open>a\<close>'s \<^verbatim>\<open>lock()\<close> has returned: on Win32 the critical section lets its
  owner in again, and \<^verbatim>\<open>try_lock\<close>, finding \<^verbatim>\<open>mAlreadyLocked\<close> set, leaves it again and
  reports failure.  The mutex being unchanged, the next \<^verbatim>\<open>try_lock()\<close> finds the same
  state: this lasts until the holder unlocks.  In every state and for every caller
  \<^verbatim>\<open>try_lock()\<close> returns.
\<close>

theorem try_lock_fails_while_held:
  assumes "holds m a" and "t \<noteq> a \<or> held_by m a"
  shows "try_lock t m = Inr (False, m) \<and> (\<forall>t' m0. \<exists>r m'. try_lock t' m0 = Inr (r, m'))"
proof -
  from assms have "try_lock t m = Inr (False, m)"
    by (cases m)
       (auto simp: TryEnterCriticalSection_def LeaveCriticalSection_def bind_fault_def
          pthread_mutex_trylock_def)
  with try_lock_returns show ?thesis by blast
qed

theorem try_lock_fails_while_held_witness:
  "holds (Win32_mutex \<lparr>OwningThread = Some 1, RecursionCount = 1\<rparr> True) 1
   \<and> held_by (Win32_mutex \<lparr>OwningThread = Some 1, RecursionCount = 1\<rparr> True) 1
   \<and> lock 1 (mutex_ctor TTHREAD_WIN32)
       = Inr (Win32_mutex \<lparr>OwningThread = Some 1, RecursionCount = 1\<rparr> True)
   \<and> try_lock 1 (Win32_mutex \<lparr>OwningThread = Some 1, RecursionCount = 1\<rparr> True)
       = Inr (False, Win32_mutex \<lparr>OwningThread = Some 1, RecursionCount = 1\<rparr> True)"
proof -
  have h1: "holds (Win32_mutex \<lparr>OwningThread = Some 1, RecursionCount = 1\<rparr> True) 1"
    by simp
  have h2: "(1::nat) \<noteq> 1 \<or> held_by (Win32_mutex \<lparr>OwningThread = Some 1, RecursionCount = 1\<rparr> True) 1"
    by simp
  have l: "lock 1 (mutex_ctor TTHREAD_WIN32)
       = Inr (Win32_mutex \<lparr>OwningThread = Some 1, RecursionCount = 1\<rparr> True)"
    by (simp add: bind_fault_def EnterCriticalSection_def TryEnterCriticalSection_def
        InitializeCriticalSection_def)
  from try_lock_fails_while_held [OF h1 h2] h1 l show ?thesis by simp
qed

text \<open>
  The step-by-step execution of \<^verbatim>\<open>lock()\<close> by a thread on its own agrees with the call as
  a whole: on an unlocked mutex it returns after three steps at most, in the same state;
  on a mutex in the state a returned \<^verbatim>\<open>lock()\<close> of the same thread left, it never reaches
  the returning control point.
\<close>

lemma lock_run_unlocked:
  "unlocked m \<Longrightarrow> \<exists>m'. lock t m = Inr m' \<and> lock_run 3 t (Lock_enter, m) = (Lock_returned, m')"
  by (cases m)
     (auto simp: bind_fault_def EnterCriticalSection_def TryEnterCriticalSection_def
        pthread_mutex_lock_def numeral_3_eq_3)

lemma lock_run_held_by:
  "held_by m a \<Longrightarrow> pc = Lock_enter \<or> pc = Lock_while \<Longrightarrow>
     fst (lock_run n a (pc, m)) \<noteq> Lock_returned"
proof (induction n arbitrary: pc m)
  case 0
  then show ?case by auto
next
  case (Suc n)
  show ?case
  proof (cases "lock_step a pc m")
    case None
    with Suc.prems show ?thesis by auto
  next
    case (Some s')
    obtain pc' m' where s': "s' = (pc', m')" by (cases s')
    from Some s' Suc.prems have "held_by m' a \<and> (pc' = Lock_enter \<or> pc' = Lock_while)"
      by (cases m)
         (auto simp: EnterCriticalSection_def TryEnterCriticalSection_def pthread_mutex_lock_def
            Sleep_def split: if_splits)
    with Suc.IH [of m' pc'] Some s' show ?thesis by simp
  qed
qed

text \<open>
  C7.  A thread that holds the mutex and calls \<^verbatim>\<open>lock()\<close> is meant never to return.  After
  a \<^verbatim>\<open>lock()\<close> that returned this is so (\<open>lock_held_by\<close> and \<open>lock_run_held_by\<close> above; on
  POSIX by the plain mutex's waiting, on Win32 by the loop on \<^verbatim>\<open>mAlreadyLocked\<close>).  But on
  Win32 a successful \<^verbatim>\<open>try_lock()\<close> leaves \<^verbatim>\<open>mAlreadyLocked\<close> clear, where \<^verbatim>\<open>lock()\<close> sets it:
  a thread that acquired the mutex with \<^verbatim>\<open>try_lock()\<close> holds it, and its \<^verbatim>\<open>lock()\<close> enters
  the critical section a second time, finds the flag clear and returns, three steps after
  the call.
\<close>

theorem lock_returns_to_holder_after_try_lock:
  "\<exists>m1 m2. try_lock a (mutex_ctor TTHREAD_WIN32) = Inr (True, m1) \<and> holds m1 a
      \<and> lock a m1 = Inr m2 \<and> lock_run 3 a (Lock_enter, m1) = (Lock_returned, m2)"
  by (simp add: bind_fault_def EnterCriticalSection_def TryEnterCriticalSection_def
      InitializeCriticalSection_def numeral_3_eq_3)

section \<open>The lock guard\<close>

text \<open>
  As long as only the declared members are used, a guard behaves as intended.  A guard
  constructed on a mutex \<open>p\<close> remembers \<open>p\<close> and issues exactly one call, a \<^verbatim>\<open>lock()\<close> on \<open>p\<close>; its
  destructor issues exactly one call, an \<^verbatim>\<open>unlock()\<close> on the same \<open>p\<close>.  A default-constructed
  guard issues no call when it is constructed and none when it is destroyed.
\<close>

lemma lock_guard_declared_members:
  "(case lock_guard_ctor p of
      (g, calls) \<Rightarrow> mMutex g = Some p \<and> calls = [Call_lock p]
         \<and> lock_guard_dtor g = [Call_unlock p]
         \<and> count_list (calls @ lock_guard_dtor g) (Call_lock p) = 1
         \<and> count_list (calls @ lock_guard_dtor g) (Call_unlock p) = 1)
 \<and> (case lock_guard_default :: 'r lock_guard \<times> 'r mutex_call list of
      (g, calls) \<Rightarrow> mMutex g = None \<and> calls = [] \<and> lock_guard_dtor g = [])"
  by (simp add: lock_guard_ctor_def lock_guard_default_def lock_guard_dtor_def)

text \<open>
  C8.  Over its whole lifetime a guard constructed on a mutex is meant to call \<^verbatim>\<open>lock()\<close>
  on it once and \<^verbatim>\<open>unlock()\<close> on the same mutex once, and a default-constructed guard is
  meant never to call \<^verbatim>\<open>unlock()\<close>: a release happens at most once, and ownership of a lock
  is not duplicated.  The generated copy operations break each part.  In

  \<^verbatim>\<open>{ lock_guard<mutex> g; lock_guard<mutex> h(m); g = h; }\<close>

  the default-constructed \<open>g\<close> holds \<open>m\<close> after the assignment; at the end of the scope \<open>h\<close>
  is destroyed first, then \<open>g\<close>, and \<open>m\<close> is unlocked twice for one \<^verbatim>\<open>lock()\<close>, the second time
  by the default-constructed guard.  After \<^verbatim>\<open>g1 = g2\<close> a guard constructed on \<open>m1\<close> unlocks
  \<open>m2\<close>, and \<open>m1\<close> stays locked.  A copy \<^verbatim>\<open>lock_guard<mutex> c(h)\<close> unlocks \<open>m\<close> without having
  locked it.  Executed on a \<^verbatim>\<open>tthread::mutex\<close>, the second \<^verbatim>\<open>unlock()\<close> is applied to a mutex
  that its caller does not own, which neither native primitive defines.
\<close>

theorem lock_guard_copies_release_twice:
  "(case lock_guard_default of (g, calls_g) \<Rightarrow>
      case lock_guard_ctor m of (h, calls_h) \<Rightarrow>
        case lock_guard_operator_assign g h of (g', calls_a) \<Rightarrow>
          mMutex g = None \<and> calls_g = [] \<and> lock_guard_dtor g' = [Call_unlock m]
          \<and> calls_g @ calls_h @ calls_a @ lock_guard_dtor h @ lock_guard_dtor g'
              = [Call_lock m, Call_unlock m, Call_unlock m])
 \<and> (case lock_guard_ctor m1 of (g1, calls_1) \<Rightarrow>
      case lock_guard_ctor m2 of (g2, calls_2) \<Rightarrow>
        case lock_guard_operator_assign g1 g2 of (g1', calls_a) \<Rightarrow>
          calls_1 = [Call_lock m1] \<and> lock_guard_dtor g1' = [Call_unlock m2]
          \<and> calls_1 @ calls_2 @ calls_a @ lock_guard_dtor g2 @ lock_guard_dtor g1'
              = [Call_lock m1, Call_lock m2, Call_unlock m2, Call_unlock m2])
 \<and> (case lock_guard_ctor m of (h, calls_h) \<Rightarrow>
      case lock_guard_copy_ctor h of (c, calls_c) \<Rightarrow>
        calls_c = [] \<and> lock_guard_dtor c = [Call_unlock m]
        \<and> calls_h @ calls_c @ lock_guard_dtor c @ lock_guard_dtor h
            = [Call_lock m, Call_unlock m, Call_unlock m])
 \<and> run_calls t [Call_lock This_mLock, Call_unlock This_mLock, Call_unlock This_mLock]
      (mutex_ctor p) = Inl Undefined_behaviour"
  by (cases p)
     (simp_all add: lock_guard_default_def lock_guard_ctor_def lock_guard_copy_ctor_def
        lock_guard_operator_assign_def lock_guard_dtor_def bind_fault_def
        InitializeCriticalSection_def EnterCriticalSection_def TryEnterCriticalSection_def
        LeaveCriticalSection_def pthread_mutex_init_def pthread_mutex_lock_def
        pthread_mutex_unlock_def)

section \<open>The atomic flag\<close>

lemma lwarx_stwcx_loop_result:
  "lwarx_stwcx_loop lost 1 cell = (cell, if cell \<noteq> 0 then cell else 1)"
  by (induction lost) (auto simp: Let_def)

lemma test_and_set_result:
  assumes "cfg \<noteq> NO_ATOMICS \<or> unlocked (atomic_flag.mLock f)"
  shows "\<exists>f'. test_and_set cfg lost t order f = Inr (mFlag f \<noteq> 0, f') \<and> mFlag f' \<noteq> 0
            \<and> unlocked (atomic_flag.mLock f') = unlocked (atomic_flag.mLock f)"
proof (cases cfg)
  case HAS_ATOMIC_BUILTINS
  then show ?thesis
    by (simp add: sync_lock_test_and_set_def static_cast_bool_def)
next
  case (HAS_ASM_ATOMICS d)
  then show ?thesis
    by (cases d) (simp_all add: xchg_def static_cast_bool_def lwarx_stwcx_loop_result)
next
  case NO_ATOMICS
  with assms have u: "unlocked (atomic_flag.mLock f)" by simp
  from guard_cycle [OF u, of t] obtain g m' m'' where
    "guard_enter t (atomic_flag.mLock f) = Inr (g, m')" "guard_exit t g m' = Inr m''"
    "unlocked m''"
    by blast
  with NO_ATOMICS u show ?thesis
    by (simp add: bind_fault_def Let_def static_cast_bool_def)
qed

lemma clear_result:
  assumes "cfg \<noteq> NO_ATOMICS \<or> unlocked (atomic_flag.mLock f)"
  shows "\<exists>f'. clear cfg t order f = Inr f' \<and> mFlag f' = 0
            \<and> unlocked (atomic_flag.mLock f') = unlocked (atomic_flag.mLock f)"
proof (cases cfg)
  case HAS_ATOMIC_BUILTINS
  then show ?thesis
    by (simp add: sync_lock_release_def)
next
  case (HAS_ASM_ATOMICS d)
  then show ?thesis
    by (cases d) (simp_all add: xchg_def)
next
  case NO_ATOMICS
  with assms have u: "unlocked (atomic_flag.mLock f)" by simp
  from guard_cycle [OF u, of t] obtain g m' m'' where
    "guard_enter t (atomic_flag.mLock f) = Inr (g, m')" "guard_exit t g m' = Inr m''"
    "unlocked m''"
    by blast
  with NO_ATOMICS u show ?thesis
    by (simp add: bind_fault_def Let_def)
qed

text \<open>
  C4.  Whichever variant is compiled (builtin, one of the three assembly language
  sequences, or the mutex-guarded fallback, whose mutex nobody holds at the call),
  \<^verbatim>\<open>test_and_set\<close> returns, and what it returns and the flag it leaves are what the
  specification's \<open>spec_test_and_set\<close> gives for the flag it found; \<^verbatim>\<open>clear\<close> returns and
  leaves the flag that \<open>spec_clear\<close> gives.  The variants therefore agree with each other
  in the value returned and in the flag left behind, for every memory order and however
  often the PowerPC reservation is lost.
\<close>

theorem atomic_flag_variants_meet_contract:
  assumes "cfg \<noteq> NO_ATOMICS \<or> unlocked (atomic_flag.mLock f)"
  shows "(\<exists>r f'. test_and_set cfg lost t order f = Inr (r, f')
               \<and> (r, flag_value f') = spec_test_and_set (flag_value f)
               \<and> r = flag_value f \<and> flag_value f')
       \<and> (\<exists>f'. clear cfg t order' f = Inr f'
               \<and> flag_value f' = spec_clear (flag_value f) \<and> \<not> flag_value f')"
  using test_and_set_result [OF assms, of lost t order] clear_result [OF assms, of t order']
  by (auto simp: static_cast_bool_def flag_value_def spec_test_and_set_def spec_clear_def)

theorem atomic_flag_variants_meet_contract_witness:
  "unlocked (atomic_flag.mLock (atomic_flag_ctor TTHREAD_WIN32 0))
   \<and> (\<exists>f'. test_and_set NO_ATOMICS 0 3 memory_order_acquire (atomic_flag_ctor TTHREAD_WIN32 0)
              = Inr (False, f') \<and> flag_value f')
   \<and> (\<exists>f'. clear NO_ATOMICS 3 memory_order_release (atomic_flag_ctor TTHREAD_WIN32 0) = Inr f'
              \<and> \<not> flag_value f')"
proof -
  have h: "NO_ATOMICS \<noteq> NO_ATOMICS
      \<or> unlocked (atomic_flag.mLock (atomic_flag_ctor TTHREAD_WIN32 0))"
    by (simp add: atomic_flag_ctor_def InitializeCriticalSection_def)
  have v: "\<not> flag_value (atomic_flag_ctor TTHREAD_WIN32 0)"
    by (simp add: flag_value_def static_cast_bool_def atomic_flag_ctor_def)
  note c = atomic_flag_variants_meet_contract
    [OF h, of 0 3 memory_order_acquire memory_order_release]
  from c v
  have 1: "\<exists>f'. test_and_set NO_ATOMICS 0 3 memory_order_acquire (atomic_flag_ctor TTHREAD_WIN32 0)
              = Inr (False, f') \<and> flag_value f'"
    by auto
  from c
  have 2: "\<exists>f'. clear NO_ATOMICS 3 memory_order_release (atomic_flag_ctor TTHREAD_WIN32 0) = Inr f'
              \<and> \<not> flag_value f'"
    by auto
  have u: "unlocked (atomic_flag.mLock (atomic_flag_ctor TTHREAD_WIN32 0))"
    by (simp add: atomic_flag_ctor_def InitializeCriticalSection_def)
  from u 1 2 show ?thesis by blast
qed

text \<open>
  C10.  A default-constructed flag is clear: the first \<^verbatim>\<open>test_and_set()\<close> on it returns
  false and leaves it set.  A flag constructed from a nonzero integer is set: the first
  \<^verbatim>\<open>test_and_set()\<close> on it returns true, and leaves it set.  This holds for every variant
  and both platforms.
\<close>

theorem atomic_flag_initial_state:
  "(\<exists>f'. test_and_set cfg lost t order (atomic_flag_default p) = Inr (False, f')
          \<and> flag_value f')
 \<and> (val \<noteq> 0 \<longrightarrow>
      (\<exists>f'. test_and_set cfg lost t order (atomic_flag_ctor p val) = Inr (True, f')
          \<and> flag_value f'))"
proof -
  have "cfg \<noteq> NO_ATOMICS \<or> unlocked (atomic_flag.mLock (atomic_flag_default p))"
    by (simp add: atomic_flag_default_def mutex_ctor_unlocked)
  from test_and_set_result [OF this, of lost t order]
  have 1: "\<exists>f'. test_and_set cfg lost t order (atomic_flag_default p) = Inr (False, f')
          \<and> flag_value f'"
    by (auto simp: atomic_flag_default_def static_cast_bool_def flag_value_def)
  have "cfg \<noteq> NO_ATOMICS \<or> unlocked (atomic_flag.mLock (atomic_flag_ctor p val))"
    by (simp add: atomic_flag_ctor_def mutex_ctor_unlocked)
  from test_and_set_result [OF this, of lost t order]
  have 2: "val \<noteq> 0 \<longrightarrow>
      (\<exists>f'. test_and_set cfg lost t order (atomic_flag_ctor p val) = Inr (True, f')
          \<and> flag_value f')"
    by (auto simp: atomic_flag_ctor_def static_cast_bool_def flag_value_def)
  from 1 2 show ?thesis by blast
qed

theorem atomic_flag_initial_state_witness:
  "(5 :: 32 word) \<noteq> 0
   \<and> (\<exists>f'. test_and_set (HAS_ASM_ATOMICS GNUC_ppc) 2 0 memory_order_seq_cst
             (atomic_flag_default TTHREAD_POSIX) = Inr (False, f') \<and> flag_value f')
   \<and> (\<exists>f'. test_and_set (HAS_ASM_ATOMICS GNUC_ppc) 2 0 memory_order_seq_cst
             (atomic_flag_ctor TTHREAD_POSIX 5) = Inr (True, f') \<and> flag_value f')"
  using atomic_flag_initial_state
    [of "HAS_ASM_ATOMICS GNUC_ppc" 2 0 memory_order_seq_cst TTHREAD_POSIX 5]
  by simp

section \<open>The atomic cell\<close>

lemma fetch_add_result:
  assumes "is_lock_free cfg \<or> unlocked (mLock a)"
  shows "\<exists>a'. fetch_add cfg t arg order a = Inr (mValue a, a') \<and> mValue a' = mValue a + arg
            \<and> unlocked (mLock a') = unlocked (mLock a)"
proof (cases "is_lock_free cfg")
  case True
  then show ?thesis
    by (simp add: fetch_add_def sync_fetch_and_add_def)
next
  case False
  with assms have u: "unlocked (mLock a)" by simp
  from guard_cycle [OF u, of t] obtain g m' m'' where
    "guard_enter t (mLock a) = Inr (g, m')" "guard_exit t g m' = Inr m''" "unlocked m''"
    by blast
  with False u show ?thesis
    by (simp add: fetch_add_def bind_fault_def Let_def)
qed

lemma fetch_sub_result:
  assumes "is_lock_free cfg \<or> unlocked (mLock a)"
  shows "\<exists>a'. fetch_sub cfg t arg order a = Inr (mValue a, a') \<and> mValue a' = mValue a - arg
            \<and> unlocked (mLock a') = unlocked (mLock a)"
proof (cases "is_lock_free cfg")
  case True
  then show ?thesis
    by (simp add: fetch_sub_def sync_fetch_and_sub_def)
next
  case False
  with assms have u: "unlocked (mLock a)" by simp
  from guard_cycle [OF u, of t] obtain g m' m'' where
    "guard_enter t (mLock a) = Inr (g, m')" "guard_exit t g m' = Inr m''" "unlocked m''"
    by blast
  with False u show ?thesis
    by (simp add: fetch_sub_def bind_fault_def Let_def)
qed

lemma atomic_ctor_unlocked:
  "unlocked (mLock (atomic_ctor p v))" "unlocked (mLock (atomic_default p))"
  by (simp_all add: atomic_ctor_def atomic_default_def mutex_ctor_unlocked)

text \<open>
  C1.  On the mutex-guarded path, called on a cell that holds \<open>v\<close> and whose mutex nobody
  holds, \<^verbatim>\<open>fetch_add(arg, order)\<close> returns \<open>v\<close> and leaves \<open>v + arg\<close> in the cell, and
  \<^verbatim>\<open>fetch_sub(arg, order)\<close> returns \<open>v\<close> and leaves \<open>v - arg\<close>, whatever the memory order and
  the calling thread; the mutex is released again.
\<close>

theorem fetch_add_fetch_sub_return_previous:
  assumes "\<not> is_lock_free cfg" and "unlocked (mLock a)"
  shows "(\<exists>a'. fetch_add cfg t arg order a = Inr (mValue a, a')
              \<and> mValue a' = mValue a + arg \<and> unlocked (mLock a'))
       \<and> (\<exists>a'. fetch_sub cfg t arg order a = Inr (mValue a, a')
              \<and> mValue a' = mValue a - arg \<and> unlocked (mLock a'))"
proof -
  from assms(2) have q: "is_lock_free cfg \<or> unlocked (mLock a)" by simp
  from fetch_add_result [OF q, of t arg order] fetch_sub_result [OF q, of t arg order] assms(2)
  show ?thesis by auto
qed

theorem fetch_add_fetch_sub_return_previous_witness:
  "\<not> is_lock_free NO_ATOMICS \<and> unlocked (mLock (atomic_ctor TTHREAD_WIN32 (41 :: 32 word)))
   \<and> (\<exists>a'. fetch_add NO_ATOMICS 7 1 memory_order_relaxed (atomic_ctor TTHREAD_WIN32 (41 :: 32 word))
             = Inr (41, a') \<and> mValue a' = 42)
   \<and> (\<exists>a'. fetch_sub NO_ATOMICS 7 1 memory_order_relaxed (atomic_ctor TTHREAD_WIN32 (41 :: 32 word))
             = Inr (41, a') \<and> mValue a' = 40)"
proof -
  have h1: "\<not> is_lock_free NO_ATOMICS" by simp
  have h2: "unlocked (mLock (atomic_ctor TTHREAD_WIN32 (41 :: 32 word)))"
    by (simp add: atomic_ctor_def InitializeCriticalSection_def)
  from fetch_add_fetch_sub_return_previous [OF h1 h2, of 7 1 memory_order_relaxed] h1 h2
  show ?thesis by (auto simp: atomic_ctor_def)
qed

text \<open>
  C2.  \<^verbatim>\<open>store(v)\<close> followed by \<^verbatim>\<open>load()\<close> on the same cell, with nothing in between,
  returns \<open>v\<close>: for every \<open>v\<close> of the cell's type, every pair of memory orders, either
  variant of the atomic operations and whichever threads make the two calls.
\<close>

theorem store_load_round_trip:
  assumes "is_lock_free cfg \<or> unlocked (mLock a)"
  shows "\<exists>a1 a2. store cfg t v order1 a = Inr a1 \<and> load cfg t' order2 a1 = Inr (v, a2)
            \<and> mValue a2 = v"
proof (cases "is_lock_free cfg")
  case True
  then show ?thesis
    by (simp add: store_def load_def sync_lock_test_and_set_def sync_add_and_fetch_def)
next
  case False
  with assms have u: "unlocked (mLock a)" by simp
  from guard_cycle [OF u, of t] obtain g m' m'' where
    1: "guard_enter t (mLock a) = Inr (g, m')" "guard_exit t g m' = Inr m''" "unlocked m''"
    by blast
  from guard_cycle [OF 1(3), of t'] obtain g2 m2' m2'' where
    2: "guard_enter t' m'' = Inr (g2, m2')" "guard_exit t' g2 m2' = Inr m2''" "unlocked m2''"
    by blast
  from False 1 2 show ?thesis
    by (simp add: store_def load_def bind_fault_def Let_def)
qed

theorem store_load_round_trip_witness:
  "(is_lock_free (HAS_ASM_ATOMICS MSC_VER_x86)
      \<or> unlocked (mLock (atomic_default TTHREAD_POSIX :: 8 atomic)))
   \<and> (\<exists>a1 a2. store (HAS_ASM_ATOMICS MSC_VER_x86) 1 200 memory_order_release
                 (atomic_default TTHREAD_POSIX :: 8 atomic) = Inr a1
             \<and> load (HAS_ASM_ATOMICS MSC_VER_x86) 2 memory_order_acquire a1 = Inr (200, a2)
             \<and> mValue a2 = 200)"
proof -
  have h: "is_lock_free (HAS_ASM_ATOMICS MSC_VER_x86)
      \<or> unlocked (mLock (atomic_default TTHREAD_POSIX :: 8 atomic))"
    by (simp add: atomic_default_def pthread_mutex_init_def)
  from store_load_round_trip [OF h, of 1 200 memory_order_release 2 memory_order_acquire] h
  show ?thesis by blast
qed

text \<open>
  C3.  On a cell that holds \<open>v\<close>, \<^verbatim>\<open>++x\<close> returns \<open>v + 1\<close> and \<^verbatim>\<open>x++\<close> returns \<open>v\<close>, and both
  leave \<open>v + 1\<close> in the cell; \<^verbatim>\<open>--x\<close> returns \<open>v - 1\<close> and \<^verbatim>\<open>x--\<close> returns \<open>v\<close>, and both leave
  \<open>v - 1\<close>.  (In C++ \<^verbatim>\<open>operator++()\<close> is the prefix form and \<^verbatim>\<open>operator++(int)\<close> the postfix
  form.)
\<close>

theorem increment_decrement_operators:
  assumes "is_lock_free cfg \<or> unlocked (mLock a)"
  shows "(\<exists>a'. pre_increment cfg t a = Inr (mValue a + 1, a') \<and> mValue a' = mValue a + 1)
       \<and> (\<exists>a'. post_increment cfg t a = Inr (mValue a, a') \<and> mValue a' = mValue a + 1)
       \<and> (\<exists>a'. pre_decrement cfg t a = Inr (mValue a - 1, a') \<and> mValue a' = mValue a - 1)
       \<and> (\<exists>a'. post_decrement cfg t a = Inr (mValue a, a') \<and> mValue a' = mValue a - 1)"
proof -
  from fetch_add_result [OF assms, of t 1 memory_order_seq_cst] obtain a1 where
    1: "fetch_add cfg t 1 memory_order_seq_cst a = Inr (mValue a, a1)" "mValue a1 = mValue a + 1"
    by blast
  from fetch_sub_result [OF assms, of t 1 memory_order_seq_cst] obtain a2 where
    2: "fetch_sub cfg t 1 memory_order_seq_cst a = Inr (mValue a, a2)" "mValue a2 = mValue a - 1"
    by blast
  from 1 2 show ?thesis
    by (simp add: pre_increment_def post_increment_def pre_decrement_def post_decrement_def
        bind_fault_def)
qed

theorem increment_decrement_operators_witness:
  "(is_lock_free HAS_ATOMIC_BUILTINS \<or> unlocked (mLock (atomic_ctor TTHREAD_POSIX (9 :: 16 word))))
   \<and> (\<exists>a'. pre_increment HAS_ATOMIC_BUILTINS 0 (atomic_ctor TTHREAD_POSIX (9 :: 16 word))
             = Inr (10, a') \<and> mValue a' = 10)
   \<and> (\<exists>a'. post_increment HAS_ATOMIC_BUILTINS 0 (atomic_ctor TTHREAD_POSIX (9 :: 16 word))
             = Inr (9, a') \<and> mValue a' = 10)
   \<and> (\<exists>a'. pre_decrement HAS_ATOMIC_BUILTINS 0 (atomic_ctor TTHREAD_POSIX (9 :: 16 word))
             = Inr (8, a') \<and> mValue a' = 8)
   \<and> (\<exists>a'. post_decrement HAS_ATOMIC_BUILTINS 0 (atomic_ctor TTHREAD_POSIX (9 :: 16 word))
             = Inr (9, a') \<and> mValue a' = 8)"
proof -
  have h: "is_lock_free HAS_ATOMIC_BUILTINS
      \<or> unlocked (mLock (atomic_ctor TTHREAD_POSIX (9 :: 16 word)))"
    by simp
  from increment_decrement_operators [OF h, of 0] show ?thesis
    by (simp add: atomic_ctor_def)
qed

section \<open>Concurrent increments of a shared cell\<close>

text \<open>
  The threads' steps are interleaved by a schedule.  That no update is lost is proved by
  invariant: \<open>no_update_lost\<close> holds when the calls begin and every step of every thread
  preserves it.  That the calls return is proved by a measure: in every state the
  invariant allows, a thread whose call has not returned can take a step unless another
  thread owns the native lock, the owner can always take a step, and every step that
  changes the system takes it nearer to the state in which all calls have returned.
  First, what a single step of \<^verbatim>\<open>lock()\<close> or \<^verbatim>\<open>unlock()\<close> does to the mutex, and when it can be
  taken.
\<close>

lemma sum_list_map_update:
  fixes g :: "'b \<Rightarrow> 'c::ab_group_add"
  shows "i < length xs \<Longrightarrow>
    sum_list (map g (xs[i := x])) = sum_list (map g xs) + g x - g (xs ! i)"
proof (induction xs arbitrary: i)
  case Nil
  then show ?case by simp
next
  case (Cons y ys)
  then show ?case by (cases i) (simp_all add: algebra_simps)
qed

lemma work_update:
  "i < length xs \<Longrightarrow> work (xs[i := x]) + steps_left (xs ! i) = work xs + steps_left x"
  unfolding work_def
proof (induction xs arbitrary: i)
  case Nil
  then show ?case by simp
next
  case (Cons y ys)
  then show ?case by (cases i) simp_all
qed

lemma agrees_outside:
  "lock_step t pc m = Some (pc', m') \<or> unlock_step t up m = Some (up', m') \<Longrightarrow>
     \<not> in_cs q \<Longrightarrow> agrees m q \<Longrightarrow> agrees m' q"
  by (cases m; cases pc; cases up)
     (auto simp: Sleep_def split: sum.splits if_splits)

lemma lock_step_effect:
  assumes "lock_step t pc m = Some (pc', m')"
    and "(pc \<noteq> Lock_enter) = (native_owner m = Some t)"
    and "entered_once m"
    and "agrees m (Guard_ctor pc)"
  shows "pc \<noteq> Lock_returned \<and> pc' \<noteq> Lock_enter \<and> native_owner m' = Some t
    \<and> entered_once m' \<and> agrees m' (Guard_ctor pc')
    \<and> (pc = Lock_enter \<longrightarrow> native_owner m = None)
    \<and> steps_left (Guard_ctor pc') < steps_left (Guard_ctor pc)"
  using assms
  by (cases pc; cases m)
     (auto simp: EnterCriticalSection_def TryEnterCriticalSection_def pthread_mutex_lock_def
        Sleep_def split: option.splits if_splits sum.splits)

lemma unlock_step_effect:
  assumes "unlock_step t pc m = Some (pc', m')"
    and "(pc \<noteq> Unlock_returned) = (native_owner m = Some t)"
    and "entered_once m"
    and "agrees m (Guard_dtor pc r)"
  shows "pc \<noteq> Unlock_returned \<and> (pc' \<noteq> Unlock_returned) = (native_owner m' = Some t)
    \<and> entered_once m' \<and> agrees m' (Guard_dtor pc' r)
    \<and> (\<forall>k. native_owner m' = Some k \<longrightarrow> k = t)
    \<and> steps_left (Guard_dtor pc' r) < steps_left (Guard_dtor pc r)"
  using assms
  by (cases pc; cases m)
     (auto simp: LeaveCriticalSection_def pthread_mutex_unlock_def
        split: option.splits if_splits sum.splits)

lemma lock_step_enabled:
  assumes "(pc \<noteq> Lock_enter) = (native_owner m = Some t)"
    and "entered_once m"
    and "agrees m (Guard_ctor pc)"
    and "pc \<noteq> Lock_returned"
    and "pc = Lock_enter \<longrightarrow> native_owner m = None"
  shows "\<exists>s'. lock_step t pc m = Some s'"
  using assms
  by (cases pc; cases m)
     (auto simp: EnterCriticalSection_def TryEnterCriticalSection_def pthread_mutex_lock_def)

lemma unlock_step_enabled:
  assumes "(pc \<noteq> Unlock_returned) = (native_owner m = Some t)"
    and "entered_once m"
    and "agrees m (Guard_dtor pc r)"
    and "pc \<noteq> Unlock_returned"
  shows "\<exists>s'. unlock_step t pc m = Some s'"
  using assms
  by (cases pc; cases m)
     (auto simp: LeaveCriticalSection_def pthread_mutex_unlock_def)

text \<open>
  A step of \<^verbatim>\<open>fetch_add\<close> on the guarded path, taken by thread \<open>t\<close> in a state the invariant
  allows: the cell changes by what \<open>t\<close> adds, \<open>t\<close> and the mutex agree afterwards, the native
  lock changes hands only to or from \<open>t\<close>, the threads other than \<open>t\<close> still agree with the
  mutex and the cell, and \<open>t\<close> has fewer steps left.
\<close>

lemma fetch_add_step_plain:
  fixes a :: "'a::len atomic"
  assumes c: "pc = Called \<or> pc = Guard_ctor Lock_returned \<or> pc = Add_read r
      \<or> pc = Guard_dtor Unlock_returned r"
    and nf: "\<not> is_lock_free cfg"
    and st: "fetch_add_step cfg arg t pc a = Some (pc', a')"
    and ok: "thread_ok (mLock a) (mValue a) t pc"
    and eo: "entered_once (mLock a)"
  shows "mValue a' = mValue a + added arg pc' - added arg pc
    \<and> thread_ok (mLock a') (mValue a') t pc'
    \<and> entered_once (mLock a')
    \<and> (\<forall>k. native_owner (mLock a') = Some k \<longrightarrow> k = t \<or> native_owner (mLock a) = Some k)
    \<and> (\<forall>j q. j \<noteq> t \<longrightarrow> thread_ok (mLock a) (mValue a) j q
          \<longrightarrow> thread_ok (mLock a') (mValue a') j q)
    \<and> steps_left pc' < steps_left pc"
proof -
  from c nf st have r: "a' = a" by auto
  from c nf st have dec: "steps_left pc' < steps_left pc" by auto
  from c nf st have add: "added arg pc' = added arg pc" by (auto simp: added_def)
  from c nf st ok have "thread_ok (mLock a) (mValue a) t pc'"
    by (cases "mLock a") (auto simp: thread_ok_def)
  with eo dec add show ?thesis unfolding r by simp
qed

lemma fetch_add_step_write:
  fixes a :: "'a::len atomic"
  assumes c: "pc = Add_write r v"
    and nf: "\<not> is_lock_free cfg"
    and st: "fetch_add_step cfg arg t pc a = Some (pc', a')"
    and ok: "thread_ok (mLock a) (mValue a) t pc"
    and eo: "entered_once (mLock a)"
  shows "mValue a' = mValue a + added arg pc' - added arg pc
    \<and> thread_ok (mLock a') (mValue a') t pc'
    \<and> entered_once (mLock a')
    \<and> (\<forall>k. native_owner (mLock a') = Some k \<longrightarrow> k = t \<or> native_owner (mLock a) = Some k)
    \<and> (\<forall>j q. j \<noteq> t \<longrightarrow> thread_ok (mLock a) (mValue a) j q
          \<longrightarrow> thread_ok (mLock a') (mValue a') j q)
    \<and> steps_left pc' < steps_left pc"
proof -
  from st ok c have own: "native_owner (mLock a) = Some t" and v: "v = mValue a"
    and r: "a' = a\<lparr>mValue := v + arg\<rparr>" "pc' = Guard_dtor Unlock_enter r"
    by (auto simp: thread_ok_def)
  have others: "thread_ok (mLock a) (v + arg) j q"
    if "j \<noteq> t" and ok: "thread_ok (mLock a) (mValue a) j q" for j and q :: "'a word fetch_add_pc"
  proof -
    from own that have "\<not> in_cs q" by (auto simp: thread_ok_def)
    with ok show ?thesis by (cases q) (auto simp: thread_ok_def)
  qed
  have "thread_ok (mLock a) (v + arg) t (Guard_dtor Unlock_enter r :: 'a word fetch_add_pc)"
    using ok own unfolding c by (cases "mLock a") (simp_all add: thread_ok_def)
  with others eo v show ?thesis unfolding r c by (simp add: added_def)
qed

lemma fetch_add_step_ctor:
  fixes a :: "'a::len atomic"
  assumes Guard_ctor: "pc = Guard_ctor lp" and False: "lp \<noteq> Lock_returned"
    and nf: "\<not> is_lock_free cfg"
    and st: "fetch_add_step cfg arg t pc a = Some (pc', a')"
    and ok: "thread_ok (mLock a) (mValue a) t pc"
    and eo: "entered_once (mLock a)"
  shows "mValue a' = mValue a + added arg pc' - added arg pc
    \<and> thread_ok (mLock a') (mValue a') t pc'
    \<and> entered_once (mLock a')
    \<and> (\<forall>k. native_owner (mLock a') = Some k \<longrightarrow> k = t \<or> native_owner (mLock a) = Some k)
    \<and> (\<forall>j q. j \<noteq> t \<longrightarrow> thread_ok (mLock a) (mValue a) j q
          \<longrightarrow> thread_ok (mLock a') (mValue a') j q)
    \<and> steps_left pc' < steps_left pc"
proof -
  from False Guard_ctor st obtain lp' l where
    s: "lock_step t lp (mLock a) = Some (lp', l)" and
    r: "pc' = Guard_ctor lp'" "a' = a\<lparr>mLock := l\<rparr>"
    by (cases lp) (auto split: option.splits)
  from Guard_ctor ok have
    own: "(lp \<noteq> Lock_enter) = (native_owner (mLock a) = Some t)" and
    ag: "agrees (mLock a) (Guard_ctor lp :: 'a word fetch_add_pc)"
    by (simp_all add: thread_ok_def)
  note e = lock_step_effect [OF s own eo ag]
  have others: "thread_ok l (mValue a) j q"
    if "j \<noteq> t" and ok': "thread_ok (mLock a) (mValue a) j q" for j and q :: "'a word fetch_add_pc"
  proof -
    from e own that have out: "\<not> in_cs q" by (auto simp: thread_ok_def)
    with ok' agrees_outside [of t lp "mLock a" lp' l _ _ q] s have "agrees l q"
      by (simp add: thread_ok_def)
    with out e that show ?thesis by (cases q) (auto simp: thread_ok_def)
  qed
  from e have own': "native_owner l = Some t" and eo': "entered_once l"
    and ne: "lp' \<noteq> Lock_enter"
    and ag': "agrees l (Guard_ctor lp' :: 'a word fetch_add_pc)"
    and dec: "steps_left (Guard_ctor lp' :: 'a word fetch_add_pc) < steps_left (Guard_ctor lp :: 'a word fetch_add_pc)"
    by blast+
  from own' ne ag' have me: "thread_ok l (mValue a) t (Guard_ctor lp' :: 'a word fetch_add_pc)"
    by (simp add: thread_ok_def)
  from me own' eo' dec others show ?thesis unfolding r Guard_ctor
    by (simp add: added_def)
qed

lemma fetch_add_step_dtor:
  fixes a :: "'a::len atomic"
  assumes Guard_dtor: "pc = Guard_dtor up r" and False: "up \<noteq> Unlock_returned"
    and nf: "\<not> is_lock_free cfg"
    and st: "fetch_add_step cfg arg t pc a = Some (pc', a')"
    and ok: "thread_ok (mLock a) (mValue a) t pc"
    and eo: "entered_once (mLock a)"
  shows "mValue a' = mValue a + added arg pc' - added arg pc
    \<and> thread_ok (mLock a') (mValue a') t pc'
    \<and> entered_once (mLock a')
    \<and> (\<forall>k. native_owner (mLock a') = Some k \<longrightarrow> k = t \<or> native_owner (mLock a) = Some k)
    \<and> (\<forall>j q. j \<noteq> t \<longrightarrow> thread_ok (mLock a) (mValue a) j q
          \<longrightarrow> thread_ok (mLock a') (mValue a') j q)
    \<and> steps_left pc' < steps_left pc"
proof -
  from False Guard_dtor st obtain up' l where
    s: "unlock_step t up (mLock a) = Some (up', l)" and
    r: "pc' = Guard_dtor up' r" "a' = a\<lparr>mLock := l\<rparr>"
    by (cases up) (auto split: option.splits)
  from Guard_dtor ok have
    own: "(up \<noteq> Unlock_returned) = (native_owner (mLock a) = Some t)" and
    ag: "agrees (mLock a) (Guard_dtor up r)"
    by (simp_all add: thread_ok_def)
  note e = unlock_step_effect [OF s own eo ag]
  have others: "thread_ok l (mValue a) j q"
    if "j \<noteq> t" and ok': "thread_ok (mLock a) (mValue a) j q" for j and q :: "'a word fetch_add_pc"
  proof -
    from False own that have out: "\<not> in_cs q" by (auto simp: thread_ok_def)
    with ok' agrees_outside [of t _ "mLock a" _ l up up' q] s have "agrees l q"
      by (simp add: thread_ok_def)
    with out e that show ?thesis by (cases q) (auto simp: thread_ok_def)
  qed
  from e have me: "thread_ok l (mValue a) t (Guard_dtor up' r)"
    by (simp add: thread_ok_def)
  from e have own': "\<forall>k. native_owner l = Some k \<longrightarrow> k = t" and eo': "entered_once l"
    and dec: "steps_left (Guard_dtor up' r) < steps_left (Guard_dtor up r)"
    by blast+
  from me own' eo' dec others show ?thesis unfolding r Guard_dtor
    by (simp add: added_def)
qed

lemma fetch_add_step_guarded:
  fixes a :: "'a::len atomic"
  assumes nf: "\<not> is_lock_free cfg"
    and st: "fetch_add_step cfg arg t pc a = Some (pc', a')"
    and ok: "thread_ok (mLock a) (mValue a) t pc"
    and eo: "entered_once (mLock a)"
  shows "mValue a' = mValue a + added arg pc' - added arg pc
    \<and> thread_ok (mLock a') (mValue a') t pc'
    \<and> entered_once (mLock a')
    \<and> (\<forall>k. native_owner (mLock a') = Some k \<longrightarrow> k = t \<or> native_owner (mLock a) = Some k)
    \<and> (\<forall>j q. j \<noteq> t \<longrightarrow> thread_ok (mLock a) (mValue a) j q
          \<longrightarrow> thread_ok (mLock a') (mValue a') j q)
    \<and> steps_left pc' < steps_left pc"
proof (cases pc)
  case Called
  then show ?thesis by (intro fetch_add_step_plain [OF _ nf st ok eo]) simp
next
  case (Guard_ctor lp)
  show ?thesis
  proof (cases "lp = Lock_returned")
    case True
    with Guard_ctor show ?thesis by (intro fetch_add_step_plain [OF _ nf st ok eo]) simp
  next
    case False
    from Guard_ctor False nf st ok eo show ?thesis by (rule fetch_add_step_ctor)
  qed
next
  case (Add_read r)
  then show ?thesis by (intro fetch_add_step_plain [OF _ nf st ok eo, of r]) simp
next
  case (Add_write r v)
  from this nf st ok eo show ?thesis by (rule fetch_add_step_write)
next
  case (Guard_dtor up r)
  show ?thesis
  proof (cases "up = Unlock_returned")
    case True
    with Guard_dtor show ?thesis by (intro fetch_add_step_plain [OF _ nf st ok eo, of r]) simp
  next
    case False
    from Guard_dtor False nf st ok eo show ?thesis by (rule fetch_add_step_dtor)
  qed
next
  case (Returned r)
  with st show ?thesis by simp
qed

lemma fetch_add_step_builtin:
  assumes "is_lock_free cfg"
    and "fetch_add_step cfg arg t pc a = Some (pc', a')"
    and "pc = Called \<or> returned pc"
  shows "mValue a' = mValue a + added arg pc' - added arg pc \<and> returned pc'
    \<and> steps_left pc' < steps_left pc"
  using assms by (cases pc) (auto simp: added_def sync_fetch_and_add_def)

lemma fetch_add_step_enabled:
  fixes a :: "'a::len atomic"
  assumes nf: "\<not> is_lock_free cfg"
    and ok: "thread_ok (mLock a) (mValue a) t pc"
    and eo: "entered_once (mLock a)"
    and nr: "\<not> returned pc"
    and en: "in_cs pc \<or> native_owner (mLock a) = None"
  shows "\<exists>s'. fetch_add_step cfg arg t pc a = Some s'"
proof (cases pc)
  case (Guard_ctor lp)
  show ?thesis
  proof (cases "lp = Lock_returned")
    case True
    with Guard_ctor show ?thesis by simp
  next
    case False
    from Guard_ctor ok have
      own: "(lp \<noteq> Lock_enter) = (native_owner (mLock a) = Some t)" and
      ag: "agrees (mLock a) (Guard_ctor lp :: 'a word fetch_add_pc)"
      by (simp_all add: thread_ok_def)
    from Guard_ctor en have "lp = Lock_enter \<longrightarrow> native_owner (mLock a) = None"
      by auto
    from lock_step_enabled [OF own eo ag False this] Guard_ctor False show ?thesis
      by (cases lp) auto
  qed
next
  case (Guard_dtor up r)
  show ?thesis
  proof (cases "up = Unlock_returned")
    case True
    with Guard_dtor show ?thesis by simp
  next
    case False
    from Guard_dtor ok have
      own: "(up \<noteq> Unlock_returned) = (native_owner (mLock a) = Some t)" and
      ag: "agrees (mLock a) (Guard_dtor up r)"
      by (simp_all add: thread_ok_def)
    from unlock_step_enabled [OF own eo ag False] Guard_dtor False show ?thesis
      by (cases up) auto
  qed
qed (use nr nf in auto)

text \<open>
  A step of the system preserves the invariant, so every schedule does; and the invariant
  holds when the calls begin.
\<close>

lemma no_update_lost_pair:
  "no_update_lost cfg arg v0 (a, threads) =
     (mValue a = v0 + sum_list (map (added arg) threads)
      \<and> (if is_lock_free cfg then (\<forall>pc \<in> set threads. pc = Called \<or> returned pc)
         else entered_once (mLock a)
            \<and> (\<forall>k. native_owner (mLock a) = Some k \<longrightarrow> k < length threads)
            \<and> (\<forall>i < length threads. thread_ok (mLock a) (mValue a) i (threads ! i))))"
  by (simp add: no_update_lost_def)

lemma no_update_lost_step:
  assumes "no_update_lost cfg arg v0 s"
  shows "no_update_lost cfg arg v0 (system_step cfg arg t s)"
proof -
  obtain a threads where s: "s = (a, threads)" by (cases s)
  show ?thesis
  proof (cases "t < length threads")
    case False
    with assms s show ?thesis by (simp add: system_step_def)
  next
    case t: True
    show ?thesis
    proof (cases "fetch_add_step cfg arg t (threads ! t) a")
      case None
      with assms s show ?thesis by (simp add: system_step_def)
    next
      case (Some r)
      then obtain pc' a' where
        step: "fetch_add_step cfg arg t (threads ! t) a = Some (pc', a')"
        by (cases r) auto
      with s t have next_s: "system_step cfg arg t s = (a', threads[t := pc'])"
        by (simp add: system_step_def)
      from assms s have inv: "no_update_lost cfg arg v0 (a, threads)" by simp
      from inv [unfolded no_update_lost_pair]
      have sum: "mValue a = v0 + sum_list (map (added arg) threads)"
        by (rule conjunct1)
      from inv [unfolded no_update_lost_pair] have rest:
        "if is_lock_free cfg then (\<forall>pc \<in> set threads. pc = Called \<or> returned pc)
         else entered_once (mLock a)
            \<and> (\<forall>k. native_owner (mLock a) = Some k \<longrightarrow> k < length threads)
            \<and> (\<forall>i < length threads. thread_ok (mLock a) (mValue a) i (threads ! i))"
        by (rule conjunct2)
      show ?thesis
      proof (cases "is_lock_free cfg")
        case True
        with rest t have "threads ! t = Called \<or> returned (threads ! t)"
          by simp
        from fetch_add_step_builtin [OF True step this]
        have e: "mValue a' = mValue a + added arg pc' - added arg (threads ! t)" "returned pc'"
          by blast+
        from rest True have all: "\<forall>pc \<in> set threads. pc = Called \<or> returned pc"
          by simp
        have "\<forall>pc \<in> set (threads[t := pc']). pc = Called \<or> returned pc"
        proof
          fix pc assume "pc \<in> set (threads[t := pc'])"
          then have "pc = pc' \<or> pc \<in> set threads"
            using set_update_subset_insert [of threads t pc'] by auto
          with all e(2) show "pc = Called \<or> returned pc" by auto
        qed
        with True e(1) sum t show ?thesis
          by (simp add: next_s no_update_lost_pair sum_list_map_update)
      next
        case False
        from rest False have
          once: "entered_once (mLock a)" and
          bound: "\<forall>k. native_owner (mLock a) = Some k \<longrightarrow> k < length threads" and
          oks: "\<forall>i < length threads. thread_ok (mLock a) (mValue a) i (threads ! i)"
          by simp_all
        from oks t have ok_t: "thread_ok (mLock a) (mValue a) t (threads ! t)"
          by simp
        from fetch_add_step_guarded [OF False step ok_t once] have
          e1: "mValue a' = mValue a + added arg pc' - added arg (threads ! t)" and
          e2: "thread_ok (mLock a') (mValue a') t pc'" and
          e3: "entered_once (mLock a')" and
          e4: "\<forall>k. native_owner (mLock a') = Some k \<longrightarrow>
                 k = t \<or> native_owner (mLock a) = Some k" and
          e5: "\<forall>j q. j \<noteq> t \<longrightarrow> thread_ok (mLock a) (mValue a) j q
                 \<longrightarrow> thread_ok (mLock a') (mValue a') j q"
          by blast+
        from e4 bound t have bound':
          "\<forall>k. native_owner (mLock a') = Some k \<longrightarrow> k < length (threads[t := pc'])"
          by auto
        have oks': "\<forall>i < length (threads[t := pc']).
            thread_ok (mLock a') (mValue a') i (threads[t := pc'] ! i)"
        proof (intro allI impI)
          fix i assume "i < length (threads[t := pc'])"
          then have i: "i < length threads" by simp
          show "thread_ok (mLock a') (mValue a') i (threads[t := pc'] ! i)"
          proof (cases "i = t")
            case True
            with e2 i show ?thesis by simp
          next
            case False
            with oks i e5 show ?thesis by simp
          qed
        qed
        from False e1 e3 bound' oks' sum t show ?thesis
          by (simp add: next_s no_update_lost_pair sum_list_map_update)
      qed
    qed
  qed
qed

lemma no_update_lost_run:
  "no_update_lost cfg arg v0 s \<Longrightarrow> no_update_lost cfg arg v0 (run cfg arg schedule s)"
  by (induction schedule arbitrary: s) (simp_all add: no_update_lost_step)

lemma length_system_step: "length (snd (system_step cfg arg t s)) = length (snd s)"
  by (cases s) (auto simp: system_step_def split: option.splits)

lemma length_run: "length (snd (run cfg arg schedule s)) = length (snd s)"
  by (induction schedule arbitrary: s) (simp_all add: length_system_step)

lemma no_update_lost_initially:
  assumes "is_lock_free cfg \<or> unlocked (mLock a0)"
  shows "no_update_lost cfg arg (mValue a0) (a0, replicate n Called)"
proof -
  have "sum_list (map (added arg) (replicate n Called)) = 0"
    by (induction n) (simp_all add: added_def)
  moreover have "entered_once (mLock a0) \<and> native_owner (mLock a0) = None
      \<and> thread_ok (mLock a0) (mValue a0) i Called"
    if "unlocked (mLock a0)" for i
    using that by (cases "mLock a0") (simp_all add: thread_ok_def)
  ultimately show ?thesis
    using assms by (auto simp: no_update_lost_def)
qed

lemma sum_list_added:
  "sum_list (map (added arg) threads) = of_nat (length (filter written threads)) * arg"
  by (induction threads) (simp_all add: added_def algebra_simps)

lemma filter_written_returned:
  "\<forall>pc \<in> set threads. returned pc \<Longrightarrow> filter written threads = threads"
proof (induction threads)
  case Nil
  then show ?case by simp
next
  case (Cons pc threads)
  then have "returned pc" by simp
  then have "written pc" by (cases pc) simp_all
  with Cons show ?case by simp
qed

text \<open>
  Progress.  A step either leaves the system as it is (the thread waits for the native
  lock, or has returned) or takes steps off \<open>work\<close>.  In a state the invariant allows in
  which some call has not returned, some thread's step does the latter: the owner of the
  native lock if there is one, any thread with an unfinished call otherwise.  Hence from
  every such state some schedule leads to a state in which all calls have returned.  At
  most one thread is between acquisition and release.
\<close>

lemma fetch_add_step_work:
  "fetch_add_step cfg arg t pc a = Some (pc', a') \<Longrightarrow>
     pc' = pc \<and> a' = a \<or> steps_left pc' < steps_left pc"
proof (cases pc)
  case (Guard_ctor lp)
  assume "fetch_add_step cfg arg t pc a = Some (pc', a')"
  with Guard_ctor show ?thesis
    by (cases lp; cases "mLock a")
       (auto simp: Sleep_def split: sum.splits if_splits)
next
  case (Guard_dtor up r)
  assume "fetch_add_step cfg arg t pc a = Some (pc', a')"
  with Guard_dtor show ?thesis
    by (cases up; cases "mLock a") (auto split: sum.splits)
qed (auto split: if_splits prod.splits)

lemma system_step_work:
  "system_step cfg arg t s = s \<or> work (snd (system_step cfg arg t s)) < work (snd s)"
proof -
  obtain a threads where s: "s = (a, threads)" by (cases s)
  show ?thesis
  proof (cases "t < length threads")
    case False
    with s show ?thesis by (simp add: system_step_def)
  next
    case t: True
    show ?thesis
    proof (cases "fetch_add_step cfg arg t (threads ! t) a")
      case None
      with s show ?thesis by (simp add: system_step_def)
    next
      case (Some r)
      then obtain pc' a' where
        step: "fetch_add_step cfg arg t (threads ! t) a = Some (pc', a')"
        by (cases r) auto
      with s t have next_s: "system_step cfg arg t s = (a', threads[t := pc'])"
        by (simp add: system_step_def)
      from fetch_add_step_work [OF step] show ?thesis
      proof
        assume "pc' = threads ! t \<and> a' = a"
        with next_s s show ?thesis by simp
      next
        assume "steps_left pc' < steps_left (threads ! t)"
        with work_update [OF t, of pc'] next_s s show ?thesis by simp
      qed
    qed
  qed
qed

lemma system_step_moves:
  assumes "t < length threads"
    and "fetch_add_step cfg arg t (threads ! t) a = Some (pc', a')"
    and "steps_left pc' < steps_left (threads ! t)"
  shows "work (snd (system_step cfg arg t (a, threads))) < work threads"
  using assms work_update [OF assms(1), of pc'] by (simp add: system_step_def)

lemma some_thread_moves:
  assumes inv: "no_update_lost cfg arg v0 (a, threads)"
    and unfinished: "\<exists>pc \<in> set threads. \<not> returned pc"
  shows "\<exists>t < length threads. work (snd (system_step cfg arg t (a, threads))) < work threads"
proof -
  from unfinished obtain i where i: "i < length threads" and ni: "\<not> returned (threads ! i)"
    by (auto simp: in_set_conv_nth)
  from inv [unfolded no_update_lost_pair] have rest:
    "if is_lock_free cfg then (\<forall>pc \<in> set threads. pc = Called \<or> returned pc)
     else entered_once (mLock a)
        \<and> (\<forall>k. native_owner (mLock a) = Some k \<longrightarrow> k < length threads)
        \<and> (\<forall>i < length threads. thread_ok (mLock a) (mValue a) i (threads ! i))"
    by (rule conjunct2)
  show ?thesis
  proof (cases "is_lock_free cfg")
    case True
    with rest i ni have c: "threads ! i = Called" by auto
    with True obtain pc' a' where
      step: "fetch_add_step cfg arg i (threads ! i) a = Some (pc', a')"
      by (cases "sync_fetch_and_add (mValue a) arg") auto
    from fetch_add_step_builtin [OF True step] c
    have "steps_left pc' < steps_left (threads ! i)" by simp
    from system_step_moves [OF i step this] i show ?thesis by blast
  next
    case False
    from rest False have
      once: "entered_once (mLock a)" and
      bound: "\<forall>k. native_owner (mLock a) = Some k \<longrightarrow> k < length threads" and
      oks: "\<forall>i < length threads. thread_ok (mLock a) (mValue a) i (threads ! i)"
      by simp_all
    have "\<exists>t < length threads. \<not> returned (threads ! t)
        \<and> (in_cs (threads ! t) \<or> native_owner (mLock a) = None)"
    proof (cases "native_owner (mLock a)")
      case None
      with i ni show ?thesis by blast
    next
      case (Some k)
      with bound have k: "k < length threads" by simp
      with oks Some have "in_cs (threads ! k)" by (simp add: thread_ok_def)
      moreover from this have "\<not> returned (threads ! k)" by (cases "threads ! k") simp_all
      ultimately show ?thesis using k by blast
    qed
    then obtain t where t: "t < length threads" and nt: "\<not> returned (threads ! t)"
      and en: "in_cs (threads ! t) \<or> native_owner (mLock a) = None"
      by blast
    from oks t have ok_t: "thread_ok (mLock a) (mValue a) t (threads ! t)" by simp
    from fetch_add_step_enabled [OF False ok_t once nt en, of arg] obtain pc' a' where
      step: "fetch_add_step cfg arg t (threads ! t) a = Some (pc', a')"
      by auto
    from fetch_add_step_guarded [OF False step ok_t once]
    have "steps_left pc' < steps_left (threads ! t)" by blast
    from system_step_moves [OF t step this] t show ?thesis by blast
  qed
qed

lemma all_calls_can_return:
  "no_update_lost cfg arg v0 s \<Longrightarrow>
     \<exists>schedule. \<forall>pc \<in> set (snd (run cfg arg schedule s)). returned pc"
proof (induction "work (snd s)" arbitrary: s rule: less_induct)
  case less
  obtain a threads where s: "s = (a, threads)" by (cases s)
  show ?case
  proof (cases "\<forall>pc \<in> set threads. returned pc")
    case True
    with s have "\<forall>pc \<in> set (snd (run cfg arg [] s)). returned pc" by simp
    then show ?thesis by blast
  next
    case False
    with less.prems s some_thread_moves [of cfg arg v0 a threads] obtain t where
      "work (snd (system_step cfg arg t s)) < work (snd s)"
      by auto
    from less.hyps [OF this no_update_lost_step [OF less.prems]] obtain schedule where
      "\<forall>pc \<in> set (snd (run cfg arg schedule (system_step cfg arg t s))). returned pc"
      by blast
    then have "\<forall>pc \<in> set (snd (run cfg arg (t # schedule) s)). returned pc" by simp
    then show ?thesis by blast
  qed
qed

lemma one_thread_inside:
  assumes inv: "no_update_lost cfg arg v0 (a, threads)"
    and i: "i < length threads" "in_cs (threads ! i)"
    and j: "j < length threads" "in_cs (threads ! j)"
  shows "i = j"
proof (cases "is_lock_free cfg")
  case True
  with inv [unfolded no_update_lost_pair, THEN conjunct2] i
  have "threads ! i = Called \<or> returned (threads ! i)"
    by simp
  with i(2) show ?thesis by (cases "threads ! i") simp_all
next
  case False
  with inv [unfolded no_update_lost_pair, THEN conjunct2]
  have "\<forall>i < length threads. thread_ok (mLock a) (mValue a) i (threads ! i)"
    by simp
  with i j have "native_owner (mLock a) = Some i" "native_owner (mLock a) = Some j"
    by (simp_all add: thread_ok_def)
  then show ?thesis by simp
qed

text \<open>
  C5.  Let \<open>n\<close> threads each call \<^verbatim>\<open>fetch_add(1)\<close> once on a shared cell (which is all that
  \<^verbatim>\<open>++x\<close> and \<^verbatim>\<open>x++\<close> do to the cell), starting from a cell that holds \<open>v\<close> and, on the guarded
  path, whose mutex nobody holds; nothing else touches the cell.  Then after every
  schedule, that is after every interleaving of the threads' steps, complete or not:
  the cell holds \<open>v\<close> plus the number of threads that have written their sum, so no
  increment is lost on the way; at most one thread is between acquiring and releasing the
  lock; if all \<open>n\<close> calls have returned the cell holds \<open>v + n\<close>; if some call has not returned,
  some thread can take a step that brings the system forward; no step of any thread
  takes the system backward; and the run can be continued to a state in which all \<open>n\<close>
  calls have returned and the cell holds \<open>v + n\<close>.
\<close>

theorem concurrent_increments_all_counted:
  assumes "is_lock_free cfg \<or> unlocked (mLock a0)"
    and "run cfg 1 schedule (a0, replicate n Called) = (a, threads)"
  shows "length threads = n
    \<and> mValue a = mValue a0 + of_nat (length (filter written threads))
    \<and> (\<forall>i < n. \<forall>j < n. in_cs (threads ! i) \<and> in_cs (threads ! j) \<longrightarrow> i = j)
    \<and> ((\<forall>pc \<in> set threads. returned pc) \<longrightarrow> mValue a = mValue a0 + of_nat n)
    \<and> ((\<exists>pc \<in> set threads. \<not> returned pc) \<longrightarrow>
          (\<exists>t < n. work (snd (system_step cfg 1 t (a, threads))) < work threads))
    \<and> (\<forall>t. system_step cfg 1 t (a, threads) = (a, threads)
          \<or> work (snd (system_step cfg 1 t (a, threads))) < work threads)
    \<and> (\<exists>schedule' a' threads'. run cfg 1 schedule' (a, threads) = (a', threads')
          \<and> (\<forall>pc \<in> set threads'. returned pc) \<and> mValue a' = mValue a0 + of_nat n)"
proof -
  from no_update_lost_run
    [OF no_update_lost_initially [OF assms(1)], where arg = 1 and n1 = n and schedule = schedule]
    assms(2)
  have inv: "no_update_lost cfg 1 (mValue a0) (a, threads)" by simp
  from length_run [of cfg 1 schedule "(a0, replicate n Called)"] assms(2)
  have len: "length threads = n" by simp
  from inv [unfolded no_update_lost_pair, THEN conjunct1]
  have val: "mValue a = mValue a0 + of_nat (length (filter written threads))"
    by (simp add: sum_list_added)
  from one_thread_inside [OF inv] len
  have excl: "\<forall>i < n. \<forall>j < n. in_cs (threads ! i) \<and> in_cs (threads ! j) \<longrightarrow> i = j"
    by blast
  from val len filter_written_returned [of threads]
  have fin: "(\<forall>pc \<in> set threads. returned pc) \<longrightarrow> mValue a = mValue a0 + of_nat n"
    by auto
  from some_thread_moves [OF inv] len
  have prog: "(\<exists>pc \<in> set threads. \<not> returned pc) \<longrightarrow>
      (\<exists>t < n. work (snd (system_step cfg 1 t (a, threads))) < work threads)"
    by blast
  from system_step_work [of cfg 1 _ "(a, threads)"]
  have mono: "\<forall>t. system_step cfg 1 t (a, threads) = (a, threads)
      \<or> work (snd (system_step cfg 1 t (a, threads))) < work threads"
    by simp
  have compl: "\<exists>schedule' a' threads'. run cfg 1 schedule' (a, threads) = (a', threads')
      \<and> (\<forall>pc \<in> set threads'. returned pc) \<and> mValue a' = mValue a0 + of_nat n"
  proof -
    from all_calls_can_return [OF inv] obtain schedule' where
      d: "\<forall>pc \<in> set (snd (run cfg 1 schedule' (a, threads))). returned pc"
      by blast
    obtain a' threads' where r: "run cfg 1 schedule' (a, threads) = (a', threads')"
      by (cases "run cfg 1 schedule' (a, threads)")
    from no_update_lost_run [OF inv, of schedule'] r
    have "no_update_lost cfg 1 (mValue a0) (a', threads')" by simp
    from this [unfolded no_update_lost_pair, THEN conjunct1]
    have "mValue a' = mValue a0 + of_nat (length (filter written threads'))"
      by (simp add: sum_list_added)
    moreover from length_run [of cfg 1 schedule' "(a, threads)"] r len
    have "length threads' = n" by simp
    moreover from d r have d': "\<forall>pc \<in> set threads'. returned pc" by simp
    ultimately have "mValue a' = mValue a0 + of_nat n"
      using filter_written_returned [OF d'] by simp
    with r d' show ?thesis by blast
  qed
  from len val excl fin prog mono compl show ?thesis by blast
qed

text \<open>
  The steps compose to the call: a thread scheduled ten times in a row on a cell whose
  mutex is free completes its call, with the result and the cell that \<open>fetch_add\<close> as a
  whole gives.  The closing example interleaves two threads on the guarded Win32 path.
  After nine steps thread 0 has written 6 and is about to unlock, and thread 1, scheduled
  twice, waits for the native lock; after twenty-one steps both calls have returned, with
  the results 5 and 6, and the cell holds 7.
\<close>

lemma replicate_10: "replicate 10 t = [t, t, t, t, t, t, t, t, t, t]"
  by (simp add: numeral_eq_Suc)

lemma run_alone:
  assumes "is_lock_free cfg \<or> unlocked (mLock a)" and "t < length threads"
    and "threads ! t = Called"
  shows "\<exists>a'. run cfg arg (replicate 10 t) (a, threads) = (a', threads[t := Returned (mValue a)])
           \<and> fetch_add cfg t arg order a = Inr (mValue a, a')
           \<and> mValue a' = mValue a + arg \<and> (is_lock_free cfg \<or> unlocked (mLock a'))"
proof (cases "is_lock_free cfg")
  case True
  with assms(2,3) show ?thesis
    by (simp add: replicate_10 system_step_def sync_fetch_and_add_def fetch_add_def)
next
  case False
  with assms(1) have "unlocked (mLock a)" by simp
  with False assms(2,3) show ?thesis
    by (cases "mLock a")
       (simp_all add: replicate_10 system_step_def EnterCriticalSection_def
          TryEnterCriticalSection_def LeaveCriticalSection_def pthread_mutex_lock_def
          pthread_mutex_unlock_def Sleep_def fetch_add_def guard_enter_def guard_exit_def
          lock_guard_ctor_def lock_guard_dtor_def bind_fault_def)
qed

theorem concurrent_increments_all_counted_witness:
  "unlocked (mLock (atomic_ctor TTHREAD_WIN32 (5 :: 32 word)))
   \<and> run NO_ATOMICS 1 [0, 1, 0, 0, 1, 0, 0, 0, 0]
        (atomic_ctor TTHREAD_WIN32 (5 :: 32 word), replicate 2 Called)
      = (\<lparr>mLock = Win32_mutex \<lparr>OwningThread = Some 0, RecursionCount = 1\<rparr> True, mValue = 6\<rparr>,
         [Guard_dtor Unlock_enter 5, Guard_ctor Lock_enter])
   \<and> mValue \<lparr>mLock = Win32_mutex \<lparr>OwningThread = Some 0, RecursionCount = 1\<rparr> True,
        mValue = (6 :: 32 word)\<rparr>
      = mValue (atomic_ctor TTHREAD_WIN32 (5 :: 32 word))
        + of_nat (length (filter written [Guard_dtor Unlock_enter (5 :: 32 word), Guard_ctor Lock_enter]))
   \<and> (\<exists>t < 2. work (snd (system_step NO_ATOMICS 1 t
          (\<lparr>mLock = Win32_mutex \<lparr>OwningThread = Some 0, RecursionCount = 1\<rparr> True,
             mValue = (6 :: 32 word)\<rparr>,
           [Guard_dtor Unlock_enter 5, Guard_ctor Lock_enter])))
        < work [Guard_dtor Unlock_enter (5 :: 32 word), Guard_ctor Lock_enter])
   \<and> (\<exists>schedule' a' threads'.
        run NO_ATOMICS 1 schedule'
          (\<lparr>mLock = Win32_mutex \<lparr>OwningThread = Some 0, RecursionCount = 1\<rparr> True,
             mValue = (6 :: 32 word)\<rparr>,
           [Guard_dtor Unlock_enter 5, Guard_ctor Lock_enter]) = (a', threads')
        \<and> (\<forall>pc \<in> set threads'. returned pc)
        \<and> mValue a' = mValue (atomic_ctor TTHREAD_WIN32 (5 :: 32 word)) + of_nat 2)
   \<and> run NO_ATOMICS 1 [0, 1, 0, 0, 1, 0, 0, 0, 0, 0, 0, 0, 1, 1, 1, 1, 1, 1, 1, 1, 1]
        (atomic_ctor TTHREAD_WIN32 (5 :: 32 word), replicate 2 Called)
      = (\<lparr>mLock = Win32_mutex \<lparr>OwningThread = None, RecursionCount = 0\<rparr> False, mValue = 7\<rparr>,
         [Returned 5, Returned 6])
   \<and> mValue \<lparr>mLock = Win32_mutex \<lparr>OwningThread = None, RecursionCount = 0\<rparr> False,
        mValue = (7 :: 32 word)\<rparr> = mValue (atomic_ctor TTHREAD_WIN32 (5 :: 32 word)) + of_nat 2"
proof -
  have u: "is_lock_free NO_ATOMICS \<or> unlocked (mLock (atomic_ctor TTHREAD_WIN32 (5 :: 32 word)))"
    by (simp add: atomic_ctor_def InitializeCriticalSection_def)
  have r1: "run NO_ATOMICS 1 [0, 1, 0, 0, 1, 0, 0, 0, 0]
        (atomic_ctor TTHREAD_WIN32 (5 :: 32 word), replicate 2 Called)
      = (\<lparr>mLock = Win32_mutex \<lparr>OwningThread = Some 0, RecursionCount = 1\<rparr> True, mValue = 6\<rparr>,
         [Guard_dtor Unlock_enter 5, Guard_ctor Lock_enter])"
    by (simp add: numeral_2_eq_2 system_step_def atomic_ctor_def InitializeCriticalSection_def
        EnterCriticalSection_def TryEnterCriticalSection_def LeaveCriticalSection_def Sleep_def)
  have r2: "run NO_ATOMICS 1 [0, 1, 0, 0, 1, 0, 0, 0, 0, 0, 0, 0, 1, 1, 1, 1, 1, 1, 1, 1, 1]
        (atomic_ctor TTHREAD_WIN32 (5 :: 32 word), replicate 2 Called)
      = (\<lparr>mLock = Win32_mutex \<lparr>OwningThread = None, RecursionCount = 0\<rparr> False, mValue = 7\<rparr>,
         [Returned 5, Returned 6])"
    by (simp add: numeral_2_eq_2 system_step_def atomic_ctor_def InitializeCriticalSection_def
        EnterCriticalSection_def TryEnterCriticalSection_def LeaveCriticalSection_def Sleep_def)
  note during = concurrent_increments_all_counted [OF u r1]
  note after = concurrent_increments_all_counted [OF u r2]
  have waiting: "\<exists>pc \<in> set [Guard_dtor Unlock_enter (5 :: 32 word), Guard_ctor Lock_enter].
      \<not> returned pc"
    by simp
  have finished: "\<forall>pc \<in> set [Returned (5 :: 32 word), Returned 6]. returned pc"
    by simp
  from during have c1: "mValue \<lparr>mLock = Win32_mutex \<lparr>OwningThread = Some 0, RecursionCount = 1\<rparr> True,
        mValue = (6 :: 32 word)\<rparr>
      = mValue (atomic_ctor TTHREAD_WIN32 (5 :: 32 word))
        + of_nat (length (filter written [Guard_dtor Unlock_enter (5 :: 32 word), Guard_ctor Lock_enter]))"
    by blast
  from during waiting have c2: "\<exists>t < 2. work (snd (system_step NO_ATOMICS 1 t
          (\<lparr>mLock = Win32_mutex \<lparr>OwningThread = Some 0, RecursionCount = 1\<rparr> True,
             mValue = (6 :: 32 word)\<rparr>,
           [Guard_dtor Unlock_enter 5, Guard_ctor Lock_enter])))
        < work [Guard_dtor Unlock_enter (5 :: 32 word), Guard_ctor Lock_enter]"
    by blast
  from during have c3: "\<exists>schedule' a' threads'.
        run NO_ATOMICS 1 schedule'
          (\<lparr>mLock = Win32_mutex \<lparr>OwningThread = Some 0, RecursionCount = 1\<rparr> True,
             mValue = (6 :: 32 word)\<rparr>,
           [Guard_dtor Unlock_enter 5, Guard_ctor Lock_enter]) = (a', threads')
        \<and> (\<forall>pc \<in> set threads'. returned pc)
        \<and> mValue a' = mValue (atomic_ctor TTHREAD_WIN32 (5 :: 32 word)) + of_nat 2"
    by blast
  from after finished have c4: "mValue \<lparr>mLock = Win32_mutex \<lparr>OwningThread = None, RecursionCount = 0\<rparr> False,
        mValue = (7 :: 32 word)\<rparr> = mValue (atomic_ctor TTHREAD_WIN32 (5 :: 32 word)) + of_nat 2"
    by blast
  from u have u': "unlocked (mLock (atomic_ctor TTHREAD_WIN32 (5 :: 32 word)))" by simp
  from u' r1 c1 c2 c3 r2 c4 show ?thesis by (intro conjI)
qed

section \<open>Sleeping\<close>

text \<open>
  Whenever the computation is exact and the requested interval is not below \<open>-1/2\<close>, the
  \<^verbatim>\<open>int\<close> that \<^verbatim>\<open>sleep_for\<close> passes on is the interval rounded to the nearest integer,
  halves upwards; for instance 1/1024 s becomes 1 ms, where truncation would give 0.
\<close>

lemma double_result_Inr: "double_result x = Inr y \<Longrightarrow> y = x"
  by (simp add: double_result_def split: if_splits)

lemma int_of_double_Inr:
  assumes "int_of_double (v + 1 / 2) = Inr n" and "- 1 / 2 \<le> v"
  shows "sint n = round v"
proof -
  from assms(2) have nonneg: "0 \<le> v + 1 / 2" by simp
  with assms(1) have range: "- (2 ^ 31) \<le> \<lfloor>v + 1 / 2\<rfloor>" "\<lfloor>v + 1 / 2\<rfloor> < 2 ^ 31"
    and n: "n = word_of_int \<lfloor>v + 1 / 2\<rfloor>"
    by (auto simp: int_of_double_def Let_def split: if_splits)
  from range have "sint (word_of_int \<lfloor>v + 1 / 2\<rfloor> :: 32 word) = \<lfloor>v + 1 / 2\<rfloor>"
    by (simp add: sint_sbintrunc' signed_take_bit_int_eq_self)
  with n show ?thesis by (simp add: round_def)
qed

lemma sleep_for_exact_value:
  assumes "sleep_for p aTime = Inr n"
  shows "int_of_double (spec_interval p aTime + 1 / 2) = Inr n"
  using assms
  by (cases p)
     (auto simp: bind_fault_def as_double_def double_of_intmax_def double_divide_def
        double_times_def double_plus_def spec_interval_def mult.assoc
        split: sum.splits if_splits dest!: double_result_Inr)

lemma sleep_for_rounds_when_exact:
  assumes "sleep_for p aTime = Inr n" and "- 1 / 2 \<le> spec_interval p aTime"
  shows "sint n = round (spec_interval p aTime)"
  using int_of_double_Inr [OF sleep_for_exact_value [OF assms(1)] assms(2)] .

lemma sleep_for_examples:
  "sleep_for TTHREAD_WIN32 (hours 1) = Inr 3600000"
  "sleep_for TTHREAD_POSIX (seconds 2) = Inr 2000000"
  "sleep_for TTHREAD_WIN32 \<lparr>rep = 1, period = \<lparr>ratio_N = 1, ratio_D = 1024\<rparr>\<rparr> = Inr 1"
  by code_simp+

text \<open>
  C9.  The conversion is meant to yield the requested interval, rounded, for every
  duration: \<open>c * 1000000 * N/D\<close> microseconds on POSIX.  For one hour that is
  3600000000 microseconds.  Every operation of the computation is exact there, its result
  is 3600000000.5, and the conversion of that to \<^verbatim>\<open>int\<close> is undefined: the value exceeds
  \<open>2 ^ 31 - 1\<close>.  The header documents \<^verbatim>\<open>hours\<close> as a supported duration type, and on Win32
  the same duration is converted to 3600000 milliseconds (\<open>sleep_for_examples\<close>).
\<close>

theorem sleep_for_one_hour_on_posix:
  "spec_interval TTHREAD_POSIX (hours 1) = 3600000000
   \<and> sleep_for TTHREAD_POSIX (hours 1) = Inl Undefined_behaviour"
  by code_simp

end
